theory Spec2Isabelle
  imports Main "HOL-Library.Multiset"
begin

section \<open>The evaluation broker of nomad/eval\_broker.go\<close>

text \<open>
  The broker is a record of Go maps, modelled as partial functions, and every operation
  takes the broker and returns the updated one. Evaluations are values: the only field
  the broker ever writes is \<open>Wait\<close> (in \<open>Nack\<close>), and it writes it on
  the evaluation it is about to store again. Go's \<open>int\<close> counters are
  \<open>int\<close>; the one product of durations wraps at 64 bits. A nil pointer
  dereference or an index out of range is the outcome \<open>Panic\<close>.
\<close>

subsection \<open>Data\<close>

type_synonym Duration = int
type_synonym Time = int

record Evaluation =
  ID :: string
  Namespace :: string
  JobID :: string
  Type :: string
  Priority :: int
  CreateIndex :: nat
  Wait :: Duration
  WaitUntil :: Time

record NamespacedID =
  nsID :: string
  nsNamespace :: string

text \<open>A \<open>time.Timer\<close>: \<open>Stop\<close> reports true only on a timer that is still running.\<close>

datatype Timer = Running | Stopped | Fired

record unackEval =
  Eval :: Evaluation
  Token :: string
  NackTimer :: Timer

record SchedulerStats =
  Ready :: int
  Unacked :: int

record BrokerStats =
  TotalReady :: int
  TotalUnacked :: int
  TotalBlocked :: int
  TotalWaiting :: int
  ByScheduler :: "string \<rightharpoonup> SchedulerStats"

type_synonym PendingEvaluations = "Evaluation list"

record EvalBroker =
  nackTimeout :: Duration
  deliveryLimit :: int
  enabled :: bool
  stats :: BrokerStats
  evals :: "string \<rightharpoonup> int"
  jobEvals :: "NamespacedID \<rightharpoonup> string"
  blocked :: "NamespacedID \<rightharpoonup> PendingEvaluations"
  ready :: "string \<rightharpoonup> PendingEvaluations"
  unack :: "string \<rightharpoonup> unackEval"
  waiting :: "string \<rightharpoonup> bool"
  requeue :: "string \<rightharpoonup> Evaluation"
  timeWait :: "string \<rightharpoonup> Evaluation"
  delayedEvalCancelFunc :: bool
  delayHeap :: "Evaluation list"
  delayedEvalsUpdateCh :: bool
  initialNackDelay :: Duration
  subsequentNackDelay :: Duration

datatype error = ErrDisabled | ErrNegativeTimeout | ErrNotFound | ErrTokenMismatch
  | ErrAckAfterNack | ErrNotOutstanding | ErrNackTimeoutReached

datatype 'a outcome = Panic | Return 'a

definition failedQueue :: string where
  "failedQueue = ''_failed''"

definition wrap64 :: "int \<Rightarrow> int" where
  "wrap64 x = (x + 2 ^ 63) mod 2 ^ 64 - 2 ^ 63"

definition IsZero :: "Time \<Rightarrow> bool" where
  "IsZero t = (t = 0)"

definition timerStop :: "Timer \<Rightarrow> bool \<times> Timer" where
  "timerStop t = (case t of Running \<Rightarrow> (True, Stopped) | _ \<Rightarrow> (False, t))"

definition timerReset :: "Timer \<Rightarrow> bool \<times> Timer" where
  "timerReset t = (case t of Running \<Rightarrow> (True, Running) | _ \<Rightarrow> (False, Running))"

subsection \<open>PendingEvaluations and container/heap\<close>

definition Less :: "PendingEvaluations \<Rightarrow> nat \<Rightarrow> nat \<Rightarrow> bool" where
  "Less p i j =
     (if JobID (p ! i) \<noteq> JobID (p ! j) \<and> Priority (p ! i) \<noteq> Priority (p ! j)
      then \<not> (Priority (p ! i) < Priority (p ! j))
      else CreateIndex (p ! i) < CreateIndex (p ! j))"

definition Swap :: "PendingEvaluations \<Rightarrow> nat \<Rightarrow> nat \<Rightarrow> PendingEvaluations" where
  "Swap p i j = p[i := p ! j, j := p ! i]"

definition Peek :: "PendingEvaluations \<Rightarrow> Evaluation option" where
  "Peek p = (let n = length p in if n = 0 then None else Some (p ! (n - 1)))"

text \<open>The loops of Go's container/heap, \<open>up\<close> and \<open>down\<close>, over the methods above.\<close>

function up :: "PendingEvaluations \<Rightarrow> nat \<Rightarrow> PendingEvaluations" where
  "up h j =
     (if (j - 1) div 2 = j \<or> \<not> Less h j ((j - 1) div 2) then h
      else up (Swap h ((j - 1) div 2) j) ((j - 1) div 2))"
  by pat_completeness auto
termination
  by (relation "measure (\<lambda>(h, j). j)") auto

text \<open>The child that \<open>down\<close> compares with its parent: the right one when it is less than the left.\<close>

definition downChild :: "PendingEvaluations \<Rightarrow> nat \<Rightarrow> nat \<Rightarrow> nat" where
  "downChild h i n =
     (if 2 * i + 2 < n \<and> Less h (2 * i + 2) (2 * i + 1) then 2 * i + 2 else 2 * i + 1)"

function down :: "PendingEvaluations \<Rightarrow> nat \<Rightarrow> nat \<Rightarrow> PendingEvaluations" where
  "down h i n =
     (if 2 * i + 1 \<ge> n then h
      else if \<not> Less h (downChild h i n) i then h
      else down (Swap h i (downChild h i n)) (downChild h i n) n)"
  by pat_completeness auto
termination
  by (relation "measure (\<lambda>(h, i, n). n - i)") (auto simp: downChild_def)

declare up.simps [simp del] down.simps [simp del]

definition heapPush :: "PendingEvaluations \<Rightarrow> Evaluation \<Rightarrow> PendingEvaluations" where
  "heapPush h x = up (h @ [x]) (length (h @ [x]) - 1)"

definition heapPop :: "PendingEvaluations \<Rightarrow> (Evaluation \<times> PendingEvaluations) option" where
  "heapPop h =
     (if h = [] then None
      else let n = length h - 1; h1 = down (Swap h 0 n) 0 n
           in Some (h1 ! n, take n h1))"

subsection \<open>The broker\<close>

definition lookupInt :: "('k \<rightharpoonup> int) \<Rightarrow> 'k \<Rightarrow> int" where
  "lookupInt m k = (case m k of None \<Rightarrow> 0 | Some v \<Rightarrow> v)"

definition lookupStr :: "('k \<rightharpoonup> string) \<Rightarrow> 'k \<Rightarrow> string" where
  "lookupStr m k = (case m k of None \<Rightarrow> [] | Some v \<Rightarrow> v)"

definition lookupList :: "('k \<rightharpoonup> 'a list) \<Rightarrow> 'k \<Rightarrow> 'a list" where
  "lookupList m k = (case m k of None \<Rightarrow> [] | Some v \<Rightarrow> v)"

definition emptyStats :: BrokerStats where
  "emptyStats = \<lparr>TotalReady = 0, TotalUnacked = 0, TotalBlocked = 0, TotalWaiting = 0,
     ByScheduler = Map.empty\<rparr>"

definition newBroker :: "Duration \<Rightarrow> Duration \<Rightarrow> Duration \<Rightarrow> int \<Rightarrow> EvalBroker" where
  "newBroker timeout initialDelay subsequentDelay limit =
     \<lparr>nackTimeout = timeout, deliveryLimit = limit, enabled = False,
       stats = emptyStats, evals = Map.empty, jobEvals = Map.empty, blocked = Map.empty,
       ready = Map.empty, unack = Map.empty, waiting = Map.empty, requeue = Map.empty,
       timeWait = Map.empty, delayedEvalCancelFunc = False, delayHeap = [],
       delayedEvalsUpdateCh = False, initialNackDelay = initialDelay,
       subsequentNackDelay = subsequentDelay\<rparr>"

definition NewEvalBroker :: "Duration \<Rightarrow> Duration \<Rightarrow> Duration \<Rightarrow> int \<Rightarrow> error + EvalBroker" where
  "NewEvalBroker timeout initialDelay subsequentDelay limit =
     (if timeout < 0 then Inl ErrNegativeTimeout
      else Inr (newBroker timeout initialDelay subsequentDelay limit))"

text \<open>
  Modelled from the spec: lib/delayheap is not among the sources. Push keeps the
  evaluation with its wait-until deadline, Remove drops the entry of an evaluation by its
  id and namespace, and a new heap is empty.
\<close>

definition delayHeapPush :: "Evaluation list \<Rightarrow> Evaluation \<Rightarrow> Evaluation list" where
  "delayHeapPush h e = h @ [e]"

definition delayHeapRemove :: "Evaluation list \<Rightarrow> Evaluation \<Rightarrow> Evaluation list" where
  "delayHeapRemove h e = filter (\<lambda>x. \<not> (ID x = ID e \<and> Namespace x = Namespace e)) h"

definition flush :: "EvalBroker \<Rightarrow> EvalBroker" where
  "flush b = b\<lparr>waiting := Map.empty,
     delayedEvalsUpdateCh := False,
     stats := (stats b)\<lparr>TotalReady := 0, TotalUnacked := 0, TotalBlocked := 0,
       TotalWaiting := 0, ByScheduler := Map.empty\<rparr>,
     evals := Map.empty, jobEvals := Map.empty, blocked := Map.empty, ready := Map.empty,
     unack := Map.empty, timeWait := Map.empty, delayHeap := []\<rparr>"

definition SetEnabled :: "EvalBroker \<Rightarrow> bool \<Rightarrow> EvalBroker" where
  "SetEnabled b en =
     (let prevEnabled = enabled b;
          b1 = b\<lparr>enabled := en\<rparr>;
          b2 = (if \<not> prevEnabled \<and> en then b1\<lparr>delayedEvalCancelFunc := True\<rparr> else b1)
      in if \<not> en then flush b2 else b2)"

definition Stats :: "EvalBroker \<Rightarrow> BrokerStats" where
  "Stats b = \<lparr>TotalReady = TotalReady (stats b), TotalUnacked = TotalUnacked (stats b),
     TotalBlocked = TotalBlocked (stats b), TotalWaiting = TotalWaiting (stats b),
     ByScheduler = (\<lambda>sched. ByScheduler (stats b) sched)\<rparr>"

definition namespacedID :: "Evaluation \<Rightarrow> NamespacedID" where
  "namespacedID eval = \<lparr>nsID = JobID eval, nsNamespace = Namespace eval\<rparr>"

definition processWaitingEnqueue :: "EvalBroker \<Rightarrow> Evaluation \<Rightarrow> EvalBroker" where
  "processWaitingEnqueue b eval =
     b\<lparr>timeWait := (timeWait b)(ID eval \<mapsto> eval),
       stats := (stats b)\<lparr>TotalWaiting := TotalWaiting (stats b) + 1\<rparr>\<rparr>"

text \<open>The second half of \<open>enqueueLocked\<close>: the push onto the ready queue of a class.\<close>

definition pushReady :: "EvalBroker \<Rightarrow> Evaluation \<Rightarrow> string \<Rightarrow> EvalBroker" where
  "pushReady b eval queue =
     (let b2 = (if ready b queue = None \<and> waiting b queue = None
                then b\<lparr>waiting := (waiting b)(queue \<mapsto> False)\<rparr> else b);
          b3 = b2\<lparr>ready := (ready b2)(queue \<mapsto> heapPush (lookupList (ready b2) queue) eval)\<rparr>;
          bySched = (case ByScheduler (stats b3) queue of
                       None \<Rightarrow> \<lparr>Ready = 0, Unacked = 0\<rparr> | Some s \<Rightarrow> s);
          b4 = b3\<lparr>stats := (stats b3)\<lparr>TotalReady := TotalReady (stats b3) + 1,
                 ByScheduler := (ByScheduler (stats b3))(queue \<mapsto>
                    bySched\<lparr>Ready := Ready bySched + 1\<rparr>)\<rparr>\<rparr>
      in (if waiting b4 queue = None then b4
          else b4\<lparr>waiting := (waiting b4)(queue \<mapsto> True)\<rparr>))"

definition pushBlocked :: "EvalBroker \<Rightarrow> Evaluation \<Rightarrow> EvalBroker" where
  "pushBlocked b eval =
     b\<lparr>blocked := (blocked b)(namespacedID eval \<mapsto>
          heapPush (lookupList (blocked b) (namespacedID eval)) eval),
       stats := (stats b)\<lparr>TotalBlocked := TotalBlocked (stats b) + 1\<rparr>\<rparr>"

definition enqueueLocked :: "EvalBroker \<Rightarrow> Evaluation \<Rightarrow> string \<Rightarrow> EvalBroker" where
  "enqueueLocked b eval queue =
     (if \<not> enabled b then b
      else let pendingEval = lookupStr (jobEvals b) (namespacedID eval) in
        if pendingEval = []
        then pushReady (b\<lparr>jobEvals := (jobEvals b)(namespacedID eval \<mapsto> ID eval)\<rparr>) eval queue
        else if pendingEval \<noteq> ID eval then pushBlocked b eval
        else pushReady b eval queue)"

definition enqueueWaiting :: "EvalBroker \<Rightarrow> Evaluation \<Rightarrow> EvalBroker" where
  "enqueueWaiting b eval =
     enqueueLocked
       (b\<lparr>timeWait := (timeWait b)(ID eval := None),
          stats := (stats b)\<lparr>TotalWaiting := TotalWaiting (stats b) - 1\<rparr>\<rparr>)
       eval (Type eval)"

text \<open>The timer branch of \<open>runDelayedEvalsWatcher\<close>, for the evaluation whose deadline passed.\<close>

definition delayedEvalFire :: "EvalBroker \<Rightarrow> Evaluation \<Rightarrow> EvalBroker" where
  "delayedEvalFire b eval =
     enqueueLocked
       (b\<lparr>delayHeap := delayHeapRemove (delayHeap b) eval,
          stats := (stats b)\<lparr>TotalWaiting := TotalWaiting (stats b) - 1\<rparr>\<rparr>)
       eval (Type eval)"

definition processEnqueue :: "EvalBroker \<Rightarrow> Evaluation \<Rightarrow> string \<Rightarrow> EvalBroker" where
  "processEnqueue b eval token =
     (if \<not> enabled b then b
      else if evals b (ID eval) \<noteq> None then
        (if token = [] then b
         else (case unack b (ID eval) of
                 None \<Rightarrow> b
               | Some un \<Rightarrow> if Token un = token
                            then b\<lparr>requeue := (requeue b)(token \<mapsto> eval)\<rparr> else b))
      else let b1 = (if enabled b then b\<lparr>evals := (evals b)(ID eval \<mapsto> 0)\<rparr> else b) in
        if Wait eval > 0 then processWaitingEnqueue b1 eval
        else if \<not> IsZero (WaitUntil eval)
        then b1\<lparr>delayHeap := delayHeapPush (delayHeap b1) eval,
                stats := (stats b1)\<lparr>TotalWaiting := TotalWaiting (stats b1) + 1\<rparr>,
                delayedEvalsUpdateCh := True\<rparr>
        else enqueueLocked b1 eval (Type eval))"

definition Enqueue :: "EvalBroker \<Rightarrow> Evaluation \<Rightarrow> EvalBroker" where
  "Enqueue b eval = processEnqueue b eval []"

text \<open>The Go map of \<open>EnqueueAll\<close> is walked in some order: the list gives that order.\<close>

fun EnqueueAll :: "EvalBroker \<Rightarrow> (Evaluation \<times> string) list \<Rightarrow> EvalBroker" where
  "EnqueueAll b [] = b"
| "EnqueueAll b ((eval, token) # rest) = EnqueueAll (processEnqueue b eval token) rest"

subsection \<open>Dequeue\<close>

text \<open>
  \<open>dequeueForSched\<close> takes the token that \<open>uuid.Generate\<close> returns.
  Popping an empty queue and a class without statistics both panic in Go.
\<close>

definition dequeueForSched ::
  "EvalBroker \<Rightarrow> string \<Rightarrow> string \<Rightarrow> ((Evaluation \<times> string) \<times> EvalBroker) outcome" where
  "dequeueForSched b sched token =
     (case heapPop (lookupList (ready b) sched) of
        None \<Rightarrow> Panic
      | Some (eval, pending) \<Rightarrow>
          (case ByScheduler (stats b) sched of
             None \<Rightarrow> Panic
           | Some bySched \<Rightarrow>
               Return ((eval, token),
                 b\<lparr>ready := (ready b)(sched \<mapsto> pending),
                   unack := (unack b)(ID eval \<mapsto>
                      \<lparr>Eval = eval, Token = token, NackTimer = Running\<rparr>),
                   evals := (evals b)(ID eval \<mapsto> lookupInt (evals b) (ID eval) + 1),
                   stats := (stats b)\<lparr>TotalReady := TotalReady (stats b) - 1,
                      TotalUnacked := TotalUnacked (stats b) + 1,
                      ByScheduler := (ByScheduler (stats b))(sched \<mapsto>
                         bySched\<lparr>Ready := Ready bySched - 1,
                                  Unacked := Unacked bySched + 1\<rparr>)\<rparr>\<rparr>)))"

text \<open>The loop of \<open>scanForSchedulers\<close> over the requested classes.\<close>

fun scanLoop :: "EvalBroker \<Rightarrow> string list \<Rightarrow> string list \<times> int \<Rightarrow> string list \<times> int" where
  "scanLoop b [] acc = acc"
| "scanLoop b (sched # rest) (eligibleSched, eligiblePriority) =
     (case ready b sched of
        None \<Rightarrow> scanLoop b rest (eligibleSched, eligiblePriority)
      | Some pending \<Rightarrow>
          (case Peek pending of
             None \<Rightarrow> scanLoop b rest (eligibleSched, eligiblePriority)
           | Some rdy \<Rightarrow>
               if length eligibleSched = 0 \<or> Priority rdy > eligiblePriority
               then scanLoop b rest ([sched], Priority rdy)
               else if eligiblePriority > Priority rdy
               then scanLoop b rest (eligibleSched, eligiblePriority)
               else scanLoop b rest (eligibleSched @ [sched], eligiblePriority)))"

text \<open>
  One scan of \<open>Dequeue\<close>. \<open>token\<close> is the generated token and \<open>rnd\<close> the
  random source: \<open>rand.Intn n\<close> is \<open>rnd mod n\<close>.
\<close>

definition scanForSchedulers ::
  "EvalBroker \<Rightarrow> string list \<Rightarrow> string \<Rightarrow> nat
     \<Rightarrow> (error + ((Evaluation \<times> string) option \<times> EvalBroker)) outcome" where
  "scanForSchedulers b schedulers token rnd =
     (if \<not> enabled b then Return (Inl ErrDisabled)
      else let eligibleSched = fst (scanLoop b schedulers ([], 0));
               n = length eligibleSched
           in if n = 0 then Return (Inr (None, b))
              else (case dequeueForSched b
                            (if n = 1 then eligibleSched ! 0 else eligibleSched ! (rnd mod n)) token of
                      Panic \<Rightarrow> Panic
                    | Return (r, b') \<Rightarrow> Return (Inr (Some r, b'))))"

subsection \<open>Ack and Nack\<close>

definition nackReenqueueDelay :: "EvalBroker \<Rightarrow> Evaluation \<Rightarrow> int \<Rightarrow> Duration" where
  "nackReenqueueDelay b eval prevDequeues =
     (if prevDequeues \<le> 0 then 0
      else if prevDequeues = 1 then initialNackDelay b
      else wrap64 ((prevDequeues - 1) * subsequentNackDelay b))"

text \<open>The deferred \<open>delete(b.requeue, token)\<close> of \<open>Ack\<close>, run at every return.\<close>

definition deleteRequeue :: "EvalBroker \<Rightarrow> string \<Rightarrow> EvalBroker" where
  "deleteRequeue b token = b\<lparr>requeue := (requeue b)(token := None)\<rparr>"

definition promoteBlocked :: "EvalBroker \<Rightarrow> NamespacedID \<Rightarrow> EvalBroker outcome" where
  "promoteBlocked b nsid =
     (let blockedq = lookupList (blocked b) nsid in
      if length blockedq \<noteq> 0 then
        (case heapPop blockedq of
           None \<Rightarrow> Panic
         | Some (eval, rest) \<Rightarrow>
             Return (enqueueLocked
               (b\<lparr>blocked := (if length rest > 0 then (blocked b)(nsid \<mapsto> rest)
                               else (blocked b)(nsid := None)),
                  stats := (stats b)\<lparr>TotalBlocked := TotalBlocked (stats b) - 1\<rparr>\<rparr>)
               eval (Type eval)))
      else Return b)"

definition Ack :: "EvalBroker \<Rightarrow> string \<Rightarrow> string \<Rightarrow> (error option \<times> EvalBroker) outcome" where
  "Ack b evalID token =
     (case unack b evalID of
        None \<Rightarrow> Return (Some ErrNotFound, deleteRequeue b token)
      | Some un \<Rightarrow>
          if Token un \<noteq> token then Return (Some ErrTokenMismatch, deleteRequeue b token)
          else if \<not> fst (timerStop (NackTimer un))
          then Return (Some ErrAckAfterNack, deleteRequeue b token)
          else
            (case ByScheduler (stats b)
                    (if lookupInt (evals b) evalID > deliveryLimit b then failedQueue
                     else Type (Eval un)) of
               None \<Rightarrow> Panic
             | Some bySched \<Rightarrow>
                 let queue = (if lookupInt (evals b) evalID > deliveryLimit b then failedQueue
                              else Type (Eval un));
                     b1 = b\<lparr>stats := (stats b)\<lparr>TotalUnacked := TotalUnacked (stats b) - 1,
                             ByScheduler := (ByScheduler (stats b))(queue \<mapsto>
                                bySched\<lparr>Unacked := Unacked bySched - 1\<rparr>)\<rparr>,
                           unack := (unack b)(evalID := None),
                           evals := (evals b)(evalID := None),
                           jobEvals := (jobEvals b)(namespacedID (Eval un) := None)\<rparr>
                 in (case promoteBlocked b1 (namespacedID (Eval un)) of
                       Panic \<Rightarrow> Panic
                     | Return b2 \<Rightarrow>
                         Return (None, deleteRequeue
                           (case requeue b2 token of
                              None \<Rightarrow> b2
                            | Some eval \<Rightarrow> processEnqueue b2 eval []) token))))"

definition Nack :: "EvalBroker \<Rightarrow> string \<Rightarrow> string \<Rightarrow> (error option \<times> EvalBroker) outcome" where
  "Nack b0 evalID token =
     (let b = deleteRequeue b0 token in
      case unack b evalID of
        None \<Rightarrow> Return (Some ErrNotFound, b)
      | Some un \<Rightarrow>
          if Token un \<noteq> token then Return (Some ErrTokenMismatch, b)
          else
            (case ByScheduler (stats b) (Type (Eval un)) of
               None \<Rightarrow> Panic
             | Some bySched \<Rightarrow>
                 let b1 = b\<lparr>unack := (unack b)(evalID := None),
                           stats := (stats b)\<lparr>TotalUnacked := TotalUnacked (stats b) - 1,
                             ByScheduler := (ByScheduler (stats b))(Type (Eval un) \<mapsto>
                                bySched\<lparr>Unacked := Unacked bySched - 1\<rparr>)\<rparr>\<rparr>;
                     dequeues = lookupInt (evals b1) evalID
                 in if dequeues \<ge> deliveryLimit b1
                    then Return (None, enqueueLocked b1 (Eval un) failedQueue)
                    else let e = (Eval un)\<lparr>Wait := nackReenqueueDelay b1 (Eval un) dequeues\<rparr>
                         in if Wait e > 0 then Return (None, processWaitingEnqueue b1 e)
                            else Return (None, enqueueLocked b1 e (Type e))))"

subsection \<open>Operations on the nack timer of a delivery\<close>

definition Outstanding :: "EvalBroker \<Rightarrow> string \<Rightarrow> string \<times> bool" where
  "Outstanding b evalID =
     (case unack b evalID of None \<Rightarrow> ([], False) | Some un \<Rightarrow> (Token un, True))"

definition OutstandingReset :: "EvalBroker \<Rightarrow> string \<Rightarrow> string \<Rightarrow> error option \<times> EvalBroker" where
  "OutstandingReset b evalID token =
     (case unack b evalID of
        None \<Rightarrow> (Some ErrNotOutstanding, b)
      | Some un \<Rightarrow>
          if Token un \<noteq> token then (Some ErrTokenMismatch, b)
          else let r = timerReset (NackTimer un);
                   b1 = b\<lparr>unack := (unack b)(evalID \<mapsto> un\<lparr>NackTimer := snd r\<rparr>)\<rparr>
               in if \<not> fst r then (Some ErrNackTimeoutReached, b1) else (None, b1))"

definition PauseNackTimeout :: "EvalBroker \<Rightarrow> string \<Rightarrow> string \<Rightarrow> error option \<times> EvalBroker" where
  "PauseNackTimeout b evalID token =
     (case unack b evalID of
        None \<Rightarrow> (Some ErrNotOutstanding, b)
      | Some un \<Rightarrow>
          if Token un \<noteq> token then (Some ErrTokenMismatch, b)
          else let r = timerStop (NackTimer un);
                   b1 = b\<lparr>unack := (unack b)(evalID \<mapsto> un\<lparr>NackTimer := snd r\<rparr>)\<rparr>
               in if \<not> fst r then (Some ErrNackTimeoutReached, b1) else (None, b1))"

definition ResumeNackTimeout :: "EvalBroker \<Rightarrow> string \<Rightarrow> string \<Rightarrow> error option \<times> EvalBroker" where
  "ResumeNackTimeout b evalID token =
     (case unack b evalID of
        None \<Rightarrow> (Some ErrNotOutstanding, b)
      | Some un \<Rightarrow>
          if Token un \<noteq> token then (Some ErrTokenMismatch, b)
          else (None, b\<lparr>unack := (unack b)(evalID \<mapsto>
                           un\<lparr>NackTimer := snd (timerReset (NackTimer un))\<rparr>)\<rparr>))"

text \<open>The nack timer of a delivery runs out: from then on \<open>Stop\<close> reports false.\<close>

definition nackTimerExpire :: "EvalBroker \<Rightarrow> string \<Rightarrow> EvalBroker" where
  "nackTimerExpire b evalID =
     (case unack b evalID of
        None \<Rightarrow> b
      | Some un \<Rightarrow> if NackTimer un = Running
                   then b\<lparr>unack := (unack b)(evalID \<mapsto> un\<lparr>NackTimer := Fired\<rparr>)\<rparr> else b)"

subsection \<open>Example evaluations and brokers\<close>

definition exampleEval :: "string \<Rightarrow> string \<Rightarrow> string \<Rightarrow> int \<Rightarrow> nat \<Rightarrow> Evaluation" where
  "exampleEval i job class prio idx =
     \<lparr>ID = i, Namespace = ''default'', JobID = job, Type = class, Priority = prio,
      CreateIndex = idx, Wait = 0, WaitUntil = 0\<rparr>"

definition startedBroker :: "int \<Rightarrow> EvalBroker" where
  "startedBroker limit = SetEnabled (newBroker 5 0 0 limit) True"

text \<open>Two evaluations of class A (priorities 50 and 10) and one of class B (priority 30).\<close>

definition threeReady :: EvalBroker where
  "threeReady =
     Enqueue (Enqueue (Enqueue (startedBroker 3)
       (exampleEval ''e1'' ''j1'' ''A'' 50 1))
       (exampleEval ''e2'' ''j2'' ''A'' 10 2))
       (exampleEval ''e3'' ''j3'' ''B'' 30 3)"

text \<open>What a successful scan hands out, and the broker after it.\<close>

definition scanned ::
  "(error + ((Evaluation \<times> string) option \<times> EvalBroker)) outcome \<Rightarrow> Evaluation option" where
  "scanned r = (case r of Return (Inr (Some (e, t), b)) \<Rightarrow> Some e | _ \<Rightarrow> None)"

definition afterScan ::
  "EvalBroker \<Rightarrow> (error + ((Evaluation \<times> string) option \<times> EvalBroker)) outcome \<Rightarrow> EvalBroker" where
  "afterScan d r = (case r of Return (Inr (x, b)) \<Rightarrow> b | _ \<Rightarrow> d)"

definition afterCall :: "EvalBroker \<Rightarrow> (error option \<times> EvalBroker) outcome \<Rightarrow> EvalBroker" where
  "afterCall d r = (case r of Return (x, b) \<Rightarrow> b | Panic \<Rightarrow> d)"

text \<open>One evaluation of class service, delivered once, under a given delivery limit.\<close>

definition delivered :: "int \<Rightarrow> EvalBroker" where
  "delivered limit =
     (let b = Enqueue (startedBroker limit) (exampleEval ''e1'' ''j1'' ''service'' 50 1)
      in afterScan b (scanForSchedulers b [''service''] ''t1'' 0))"

definition deliveredOnce :: EvalBroker where
  "deliveredOnce = delivered 0"

text \<open>Two evaluations of one job: the first is delivered, the second is blocked.\<close>

definition twoOfOneJob :: EvalBroker where
  "twoOfOneJob =
     (let b = Enqueue (Enqueue (startedBroker 3)
                (exampleEval ''e1'' ''j1'' ''service'' 50 1))
                (exampleEval ''e2'' ''j1'' ''service'' 50 2)
      in afterScan b (scanForSchedulers b [''service''] ''t1'' 0))"

text \<open>A third evaluation of that job comes in behind the blocked one.\<close>

definition threeOfOneJob :: EvalBroker where
  "threeOfOneJob = Enqueue twoOfOneJob (exampleEval ''e3'' ''j1'' ''service'' 50 3)"

text \<open>
  With an initial delay of 10 and a delivery limit of 3, an evaluation is delivered and
  nacked: it waits for its back-off timer.
\<close>

definition parkedAfterNack :: EvalBroker where
  "parkedAfterNack =
     (let b1 = Enqueue (SetEnabled (newBroker 5 10 20 3) True)
                 (exampleEval ''e1'' ''j1'' ''service'' 50 1);
          b2 = afterScan b1 (scanForSchedulers b1 [''service''] ''t1'' 0)
      in afterCall b2 (Nack b2 ''e1'' ''t1''))"

definition succeeded :: "(error option \<times> EvalBroker) outcome \<Rightarrow> bool" where
  "succeeded r = (case r of Return (None, b) \<Rightarrow> True | _ \<Rightarrow> False)"

text \<open>Where \<open>processEnqueue\<close> puts a new evaluation, by its wait fields.\<close>

definition placed :: "EvalBroker \<Rightarrow> Evaluation \<Rightarrow> bool" where
  "placed b e =
     (if Wait e > 0 then timeWait b (ID e) = Some e
      else if \<not> IsZero (WaitUntil e) then e \<in> set (delayHeap b)
      else e \<in> set (lookupList (ready b) (Type e))
           \<or> e \<in> set (lookupList (blocked b) (namespacedID e)))"

text \<open>
  Under a delivery limit of 1: an evaluation of class service is delivered and nacked,
  which routes it to the failed class, and is then delivered from there.
\<close>

definition deliveredFromFailed :: EvalBroker where
  "deliveredFromFailed =
     (let b1 = Enqueue (startedBroker 1) (exampleEval ''e1'' ''j1'' ''service'' 50 1);
          b2 = afterScan b1 (scanForSchedulers b1 [''service''] ''t1'' 0);
          b3 = afterCall b2 (Nack b2 ''e1'' ''t1'')
      in afterScan b3 (scanForSchedulers b3 [failedQueue] ''t2'' 0))"

text \<open>
  Two evaluations of one job, the first with the empty string as its id, and the state
  after the first one is delivered under a delivery limit of 1.
\<close>

definition unnamedAndNamed :: "int \<Rightarrow> EvalBroker" where
  "unnamedAndNamed limit =
     Enqueue (Enqueue (startedBroker limit)
       (exampleEval [] ''j1'' ''service'' 50 1))
       (exampleEval ''e2'' ''j1'' ''service'' 50 2)"

definition unnamedDelivered :: EvalBroker where
  "unnamedDelivered =
     (let b = unnamedAndNamed 1 in afterScan b (scanForSchedulers b [''service''] ''t1'' 0))"

text \<open>
  With an initial delay of 10 and a delivery limit of 3, an evaluation is delivered.
\<close>

definition deliveredBackoff :: EvalBroker where
  "deliveredBackoff =
     (let b1 = Enqueue (SetEnabled (newBroker 5 10 20 3) True)
                 (exampleEval ''e1'' ''j1'' ''service'' 50 1)
      in afterScan b1 (scanForSchedulers b1 [''service''] ''t1'' 0))"

definition panics :: "'a outcome \<Rightarrow> bool" where
  "panics r = (case r of Panic \<Rightarrow> True | Return x \<Rightarrow> False)"

subsection \<open>Where an evaluation is held, and the states the broker can reach\<close>

text \<open>
  An evaluation that the broker knows is held in one place: a ready queue, a blocked
  queue, the unack table, the time-wait set or the delay heap.
\<close>

datatype place = InReady string | InBlocked NamespacedID | InUnack | InTimeWait | InDelay

fun held :: "EvalBroker \<Rightarrow> Evaluation \<Rightarrow> place \<Rightarrow> bool" where
  "held b e (InReady q) = (e \<in> set (lookupList (ready b) q))"
| "held b e (InBlocked k) = (e \<in> set (lookupList (blocked b) k))"
| "held b e InUnack = (case unack b (ID e) of None \<Rightarrow> False | Some u \<Rightarrow> Eval u = e)"
| "held b e InTimeWait = (timeWait b (ID e) = Some e)"
| "held b e InDelay = (e \<in> set (delayHeap b))"

fun inFlight :: "place \<Rightarrow> bool" where
  "inFlight (InReady q) = True"
| "inFlight InUnack = True"
| "inFlight l = False"

text \<open>
  The invariant of the enabled broker, in its parts: the unack table and the time-wait
  set are keyed by the id of their evaluation; no queue holds an id twice; an id is held
  in one place only; every held evaluation has a counter and a non-empty id; an
  evaluation that is ready, outstanding or was delivered before is the representative of
  its job; a blocked queue holds evaluations of its own job; outside the unack table and
  the failed class a counter is 0 or below the delivery limit; tokens of outstanding
  deliveries are non-empty and differ; requeued evaluations have non-empty ids.
\<close>

definition keyedByID :: "EvalBroker \<Rightarrow> bool" where
  "keyedByID b = ((\<forall>i u. unack b i = Some u \<longrightarrow> ID (Eval u) = i)
     \<and> (\<forall>i e. timeWait b i = Some e \<longrightarrow> ID e = i))"

definition queuesDistinct :: "EvalBroker \<Rightarrow> bool" where
  "queuesDistinct b = ((\<forall>q. distinct (map ID (lookupList (ready b) q)))
     \<and> (\<forall>k. distinct (map ID (lookupList (blocked b) k)))
     \<and> distinct (map ID (delayHeap b)))"

definition onePlace :: "EvalBroker \<Rightarrow> bool" where
  "onePlace b = (\<forall>e l e' l'. held b e l \<and> held b e' l' \<and> ID e = ID e' \<longrightarrow> l = l')"

definition counted :: "EvalBroker \<Rightarrow> bool" where
  "counted b = ((\<forall>e l. held b e l \<longrightarrow> evals b (ID e) \<noteq> None \<and> ID e \<noteq> [])
     \<and> (\<forall>i c. evals b i = Some c \<longrightarrow> 0 \<le> c))"

definition represented :: "EvalBroker \<Rightarrow> bool" where
  "represented b = (\<forall>e l. held b e l \<and> (inFlight l \<or> lookupInt (evals b) (ID e) > 0)
       \<longrightarrow> jobEvals b (namespacedID e) = Some (ID e))"

definition blockedByJob :: "EvalBroker \<Rightarrow> bool" where
  "blockedByJob b = (\<forall>e k. held b e (InBlocked k) \<longrightarrow> namespacedID e = k)"

definition withinLimit :: "EvalBroker \<Rightarrow> bool" where
  "withinLimit b = (\<forall>e l. held b e l \<and> l \<noteq> InUnack \<and> l \<noteq> InReady failedQueue
       \<longrightarrow> lookupInt (evals b) (ID e) = 0 \<or> lookupInt (evals b) (ID e) < deliveryLimit b)"

definition tokensUnique :: "EvalBroker \<Rightarrow> bool" where
  "tokensUnique b = ((\<forall>i j u v. unack b i = Some u \<and> unack b j = Some v \<and> Token u = Token v \<longrightarrow> i = j)
     \<and> (\<forall>i u. unack b i = Some u \<longrightarrow> Token u \<noteq> []))"

definition requeueIds :: "EvalBroker \<Rightarrow> bool" where
  "requeueIds b = (\<forall>t e. requeue b t = Some e \<longrightarrow> ID e \<noteq> [])"

definition brokerInv :: "EvalBroker \<Rightarrow> bool" where
  "brokerInv b = (enabled b \<and> keyedByID b \<and> queuesDistinct b \<and> onePlace b \<and> counted b
     \<and> represented b \<and> blockedByJob b \<and> withinLimit b \<and> tokensUnique b \<and> requeueIds b)"

text \<open>An evaluation in hand: taken out of its place, or new, and about to be stored.\<close>

definition inHand :: "EvalBroker \<Rightarrow> Evaluation \<Rightarrow> bool" where
  "inHand b e = (ID e \<noteq> [] \<and> evals b (ID e) \<noteq> None \<and> (\<forall>e' l. held b e' l \<longrightarrow> ID e' \<noteq> ID e)
     \<and> (lookupInt (evals b) (ID e) > 0 \<longrightarrow> jobEvals b (namespacedID e) = Some (ID e)))"

text \<open>
  What happens to an enabled broker, one event at a time: an evaluation is enqueued
  (each iteration of \<open>EnqueueAll\<close> is one \<open>processEnqueue\<close>), a scan of
  \<open>Dequeue\<close> runs, a delivery is acked or nacked, a wait timer or a wait-until
  deadline runs out, a nack timer expires, is paused, resumed or reset. The predicate
  \<open>P\<close> says which evaluations the producers submit. The token generator hands out
  non-empty tokens that no outstanding delivery carries.
\<close>

datatype event =
    Enqueued Evaluation string
  | Scanned "string list" string nat
  | Acked string string
  | Nacked string string
  | WaitOver Evaluation
  | DelayOver Evaluation
  | NackTimerOver string
  | Paused string string
  | Resumed string string
  | TimerReset string string

inductive step :: "(Evaluation \<Rightarrow> bool) \<Rightarrow> EvalBroker \<Rightarrow> event \<Rightarrow> EvalBroker \<Rightarrow> bool"
  for P :: "Evaluation \<Rightarrow> bool" where
  enqueue: "P eval \<Longrightarrow> step P b (Enqueued eval token) (processEnqueue b eval token)"
| dequeue: "token \<noteq> [] \<Longrightarrow> \<forall>i u. unack b i = Some u \<longrightarrow> Token u \<noteq> token
            \<Longrightarrow> scanForSchedulers b schedulers token rnd = Return (Inr (r, b'))
            \<Longrightarrow> step P b (Scanned schedulers token rnd) b'"
| ack: "Ack b evalID token = Return (err, b') \<Longrightarrow> step P b (Acked evalID token) b'"
| nack: "Nack b evalID token = Return (err, b') \<Longrightarrow> step P b (Nacked evalID token) b'"
| waitOver: "timeWait b (ID eval) = Some eval \<Longrightarrow> step P b (WaitOver eval) (enqueueWaiting b eval)"
| delayOver: "eval \<in> set (delayHeap b) \<Longrightarrow> step P b (DelayOver eval) (delayedEvalFire b eval)"
| nackTimer: "step P b (NackTimerOver evalID) (nackTimerExpire b evalID)"
| pause: "step P b (Paused evalID token) (snd (PauseNackTimeout b evalID token))"
| resume: "step P b (Resumed evalID token) (snd (ResumeNackTimeout b evalID token))"
| reset: "step P b (TimerReset evalID token) (snd (OutstandingReset b evalID token))"

text \<open>The states of an enabled broker: a new broker is enabled, and then events happen.\<close>

inductive reachable :: "(Evaluation \<Rightarrow> bool) \<Rightarrow> EvalBroker \<Rightarrow> bool"
  for P :: "Evaluation \<Rightarrow> bool" where
  start: "NewEvalBroker timeout initialDelay subsequentDelay limit = Inr b0
            \<Longrightarrow> reachable P (SetEnabled b0 True)"
| after: "reachable P b \<Longrightarrow> step P b ev b' \<Longrightarrow> reachable P b'"

text \<open>
  Producers that submit any evaluation, and producers that submit evaluations with a
  non-empty id only. The broker reads the empty string in \<open>jobEvals\<close> as no
  representative.
\<close>

definition anyEval :: "Evaluation \<Rightarrow> bool" where
  "anyEval eval = True"

definition namedEval :: "Evaluation \<Rightarrow> bool" where
  "namedEval eval = (ID eval \<noteq> [])"

text \<open>
  The occurrences of a job in flight: the positions of the ready queues and the keys of
  the unack table whose evaluation belongs to the job.
\<close>

definition readyOcc :: "EvalBroker \<Rightarrow> NamespacedID \<Rightarrow> (string \<times> nat) set" where
  "readyOcc b K = {(q, n). n < length (lookupList (ready b) q)
                      \<and> namespacedID (lookupList (ready b) q ! n) = K}"

definition unackOcc :: "EvalBroker \<Rightarrow> NamespacedID \<Rightarrow> string set" where
  "unackOcc b K = {i. \<exists>u. unack b i = Some u \<and> namespacedID (Eval u) = K}"

text \<open>
  What a Nack needs of a state so as not to fail: every outstanding delivery has an
  attempt counter and statistics for the class of its evaluation, and so has every
  ready evaluation; tokens of outstanding deliveries are non-empty and differ. This
  holds whatever the producers submit.
\<close>

definition classKnown :: "EvalBroker \<Rightarrow> string \<Rightarrow> bool" where
  "classKnown b q = (ByScheduler (stats b) q \<noteq> None)"

definition counterKnown :: "EvalBroker \<Rightarrow> string \<Rightarrow> bool" where
  "counterKnown b i = (evals b i \<noteq> None)"

definition deliveryInv :: "EvalBroker \<Rightarrow> bool" where
  "deliveryInv b = (enabled b \<and> tokensUnique b
     \<and> (\<forall>i u. unack b i = Some u \<longrightarrow> counterKnown b i \<and> classKnown b (Type (Eval u)))
     \<and> (\<forall>q e. e \<in> set (lookupList (ready b) q) \<longrightarrow> classKnown b (Type e)))"

text \<open>
  Beside the broker, two observers keep a history of every evaluation id. The first
  counts the deliveries of the id: it adds one whenever a scan hands out an evaluation
  with that id and starts again at zero when a delivery of the id is acked. The second
  records that a Nack of the id succeeded and left an evaluation with that id on the
  ready queue of the failed class; it is cleared when a delivery of the id is acked.
  Both are computed from the events and from what the calls return, never from the
  attempt counters of the broker.
\<close>

fun dequeuesAfter :: "EvalBroker \<Rightarrow> event \<Rightarrow> (string \<Rightarrow> nat) \<Rightarrow> (string \<Rightarrow> nat)" where
  "dequeuesAfter b (Scanned schedulers token rnd) dq =
     (case scanned (scanForSchedulers b schedulers token rnd) of
        None \<Rightarrow> dq | Some e \<Rightarrow> dq(ID e := dq (ID e) + 1))"
| "dequeuesAfter b (Acked i t) dq = (if succeeded (Ack b i t) then dq(i := 0) else dq)"
| "dequeuesAfter b ev dq = dq"

fun routedAfter :: "EvalBroker \<Rightarrow> event \<Rightarrow> (string \<Rightarrow> bool) \<Rightarrow> (string \<Rightarrow> bool)" where
  "routedAfter b (Nacked i t) rt =
     (if succeeded (Nack b i t)
         \<and> (\<exists>e \<in> set (lookupList (ready (afterCall b (Nack b i t))) failedQueue). ID e = i)
      then rt(i := True) else rt)"
| "routedAfter b (Acked i t) rt = (if succeeded (Ack b i t) then rt(i := False) else rt)"
| "routedAfter b ev rt = rt"

text \<open>At the start no id has been delivered and none has been routed to the failed class.\<close>

definition noDequeues :: "string \<Rightarrow> nat" where
  "noDequeues i = 0"

definition noneRouted :: "string \<Rightarrow> bool" where
  "noneRouted i = False"

text \<open>
  The states of an enabled broker whose producers submit evaluations with non-empty
  ids, together with the two histories.
\<close>

inductive counting :: "EvalBroker \<Rightarrow> (string \<Rightarrow> nat) \<Rightarrow> (string \<Rightarrow> bool) \<Rightarrow> bool" where
  start: "NewEvalBroker timeout initialDelay subsequentDelay limit = Inr b0
            \<Longrightarrow> counting (SetEnabled b0 True) noDequeues noneRouted"
| after: "counting b dq rt \<Longrightarrow> step namedEval b ev b'
            \<Longrightarrow> counting b' (dequeuesAfter b ev dq) (routedAfter b ev rt)"

text \<open>
  What ties the histories to the broker: the count of an id is its attempt counter; an
  evaluation on the ready queue of the failed class that no Nack routed there has a
  counter of 0 or below the delivery limit; an id that was not routed has a counter of
  at most the larger of 1 and the delivery limit.
\<close>

definition ghostInv :: "EvalBroker \<Rightarrow> (string \<Rightarrow> nat) \<Rightarrow> (string \<Rightarrow> bool) \<Rightarrow> bool" where
  "ghostInv b dq rt =
     ((\<forall>i. int (dq i) = lookupInt (evals b) i)
      \<and> (\<forall>e. e \<in> set (lookupList (ready b) failedQueue) \<and> \<not> rt (ID e)
            \<longrightarrow> lookupInt (evals b) (ID e) = 0 \<or> lookupInt (evals b) (ID e) < deliveryLimit b)
      \<and> (\<forall>i. \<not> rt i \<longrightarrow> lookupInt (evals b) i \<le> max 1 (deliveryLimit b)))"

section \<open>Properties\<close>

subsection \<open>container/heap keeps the elements\<close>

lemma mset_Swap: "i < length p \<Longrightarrow> j < length p \<Longrightarrow> mset (Swap p i j) = mset p"
  unfolding Swap_def by (metis mset_swap)

lemma length_Swap [simp]: "length (Swap p i j) = length p"
  by (simp add: Swap_def)

lemma mset_up: "j < length h \<Longrightarrow> mset (up h j) = mset h"
proof (induction h j rule: up.induct)
  case (1 h j)
  show ?case
  proof (cases "(j - 1) div 2 = j \<or> \<not> Less h j ((j - 1) div 2)")
    case True
    then show ?thesis by (subst up.simps) simp
  next
    case False
    have lt: "(j - 1) div 2 < length h" using "1.prems" by linarith
    from False have "up h j = up (Swap h ((j - 1) div 2) j) ((j - 1) div 2)"
      by (subst up.simps) simp
    also have "mset \<dots> = mset (Swap h ((j - 1) div 2) j)"
      using "1.IH" False lt by simp
    also have "\<dots> = mset h" using lt "1.prems" by (simp add: mset_Swap)
    finally show ?thesis .
  qed
qed

lemma downChild_bounds: "2 * i + 1 < n \<Longrightarrow> i < downChild h i n \<and> downChild h i n < n"
  by (simp add: downChild_def)

lemma mset_length_down: "n \<le> length h \<Longrightarrow> mset (down h i n) = mset h \<and> length (down h i n) = length h"
proof (induction h i n rule: down.induct)
  case (1 h i n)
  show ?case
  proof (cases "2 * i + 1 \<ge> n \<or> \<not> Less h (downChild h i n) i")
    case True
    then show ?thesis by (subst (1 2) down.simps) auto
  next
    case False
    then have jn: "downChild h i n < n" and i_n: "i < n"
      using downChild_bounds [of i n h] by auto
    from False have eq: "down h i n = down (Swap h i (downChild h i n)) (downChild h i n) n"
      by (subst down.simps) simp
    have "mset (down (Swap h i (downChild h i n)) (downChild h i n) n) = mset (Swap h i (downChild h i n))
       \<and> length (down (Swap h i (downChild h i n)) (downChild h i n) n) = length (Swap h i (downChild h i n))"
      using "1.IH" False "1.prems" by simp
    moreover have "mset (Swap h i (downChild h i n)) = mset h"
      using jn i_n "1.prems" by (intro mset_Swap) linarith+
    ultimately show ?thesis using eq by simp
  qed
qed

lemma mset_heapPush: "mset (heapPush h x) = add_mset x (mset h)"
  by (simp add: heapPush_def mset_up)

lemma heapPop_None: "heapPop h = None \<longleftrightarrow> h = []"
  by (simp add: heapPop_def Let_def)

lemma mset_heapPop: assumes "heapPop h = Some (x, rest)" shows "mset h = add_mset x (mset rest)"
proof -
  from assms have ne: "h \<noteq> []" by (auto simp: heapPop_def split: if_splits)
  define n where "n = length h - 1"
  define h1 where "h1 = down (Swap h 0 n) 0 n"
  have n: "n < length h" using ne by (simp add: n_def)
  have x: "x = h1 ! n" and rest: "rest = take n h1"
    using assms ne by (auto simp: heapPop_def Let_def n_def h1_def)
  have m: "mset h1 = mset h" and l: "length h1 = length h"
    using mset_length_down [of n "Swap h 0 n" 0] n ne
    by (simp_all add: h1_def mset_Swap)
  have "h1 = take n h1 @ [h1 ! n]"
    using l n by (metis n_def Suc_diff_1 length_greater_0_conv ne take_Suc_conv_app_nth take_all order_refl)
  then have "mset h1 = add_mset x (mset rest)"
    by (metis x rest mset.simps(2) mset_append union_mset_add_mset_right add.right_neutral mset.simps(1))
  then show ?thesis using m by simp
qed

lemma set_heapPush [simp]: "set (heapPush h x) = insert x (set h)"
  by (metis mset_heapPush set_mset_add_mset_insert set_mset_mset)

lemma distinct_heapPush: "distinct (map f (heapPush h x)) \<longleftrightarrow> f x \<notin> f ` set h \<and> distinct (map f h)"
proof -
  have "mset (map f (heapPush h x)) = mset (map f (x # h))"
    by (simp add: mset_heapPush)
  then have "distinct (map f (heapPush h x)) = distinct (map f (x # h))"
    by (rule mset_eq_imp_distinct_iff)
  then show ?thesis by simp
qed

lemma heapPop_distinct:
  assumes "heapPop h = Some (e, rest)" "distinct (map ID h)"
  shows "distinct (map ID rest)" and "set rest = {x \<in> set h. ID x \<noteq> ID e}" and "e \<in> set h"
proof -
  have m: "mset h = add_mset e (mset rest)" using assms(1) by (rule mset_heapPop)
  then have "mset (map ID h) = mset (map ID (e # rest))" by simp
  then have d: "distinct (map ID (e # rest))"
    using assms(2) by (metis mset_eq_imp_distinct_iff)
  then show "distinct (map ID rest)" by simp
  have s: "set h = insert e (set rest)"
    using m by (metis set_mset_add_mset_insert set_mset_mset)
  then show "e \<in> set h" by simp
  show "set rest = {x \<in> set h. ID x \<noteq> ID e}"
    using s d by (auto simp: image_iff)
qed

lemma down_nth: "n \<le> length h \<Longrightarrow> n \<le> m \<Longrightarrow> down h i n ! m = h ! m"
proof (induction h i n rule: down.induct)
  case (1 h i n)
  show ?case
  proof (cases "2 * i + 1 \<ge> n \<or> \<not> Less h (downChild h i n) i")
    case True
    then show ?thesis by (subst down.simps) auto
  next
    case False
    then have jn: "downChild h i n < n" and i_n: "i < n"
      using downChild_bounds [of i n h] by auto
    from False have eq: "down h i n = down (Swap h i (downChild h i n)) (downChild h i n) n"
      by (subst down.simps) simp
    have "down (Swap h i (downChild h i n)) (downChild h i n) n ! m = Swap h i (downChild h i n) ! m"
      using "1.IH" False "1.prems" by simp
    also have "\<dots> = h ! m"
      using jn i_n "1.prems" by (simp add: Swap_def)
    finally show ?thesis using eq by simp
  qed
qed

lemma heapPop_hd: "heapPop h = Some (x, rest) \<Longrightarrow> x = hd h"
proof -
  assume a: "heapPop h = Some (x, rest)"
  then have ne: "h \<noteq> []" by (auto simp: heapPop_def split: if_splits)
  then have "x = down (Swap h 0 (length h - 1)) 0 (length h - 1) ! (length h - 1)"
    using a by (simp add: heapPop_def Let_def)
  also have "\<dots> = Swap h 0 (length h - 1) ! (length h - 1)"
    by (rule down_nth) simp_all
  also have "\<dots> = h ! 0" using ne by (simp add: Swap_def)
  finally show ?thesis using ne by (simp add: hd_conv_nth)
qed

subsection \<open>The invariant holds in every reachable state\<close>

lemma held_pushReady [simp]:
  "held (pushReady b e q) e' l \<longleftrightarrow> held b e' l \<or> (e' = e \<and> l = InReady q)"
  by (cases l) (auto simp: pushReady_def Let_def lookupList_def)

lemma held_pushBlocked [simp]:
  "held (pushBlocked b e) e' l \<longleftrightarrow> held b e' l \<or> (e' = e \<and> l = InBlocked (namespacedID e))"
  by (cases l) (auto simp: pushBlocked_def Let_def lookupList_def)

lemma pushReady_fields [simp]:
  "enabled (pushReady b e q) = enabled b" "evals (pushReady b e q) = evals b"
  "jobEvals (pushReady b e q) = jobEvals b" "unack (pushReady b e q) = unack b"
  "timeWait (pushReady b e q) = timeWait b" "requeue (pushReady b e q) = requeue b"
  "delayHeap (pushReady b e q) = delayHeap b" "blocked (pushReady b e q) = blocked b"
  "deliveryLimit (pushReady b e q) = deliveryLimit b"
  "lookupList (ready (pushReady b e q)) q' = (if q' = q then heapPush (lookupList (ready b) q) e else lookupList (ready b) q')"
  by (auto simp: pushReady_def Let_def lookupList_def)

lemma pushBlocked_fields [simp]:
  "enabled (pushBlocked b e) = enabled b" "evals (pushBlocked b e) = evals b"
  "jobEvals (pushBlocked b e) = jobEvals b" "unack (pushBlocked b e) = unack b"
  "timeWait (pushBlocked b e) = timeWait b" "requeue (pushBlocked b e) = requeue b"
  "delayHeap (pushBlocked b e) = delayHeap b" "ready (pushBlocked b e) = ready b"
  "deliveryLimit (pushBlocked b e) = deliveryLimit b"
  "lookupList (blocked (pushBlocked b e)) k = (if k = namespacedID e then heapPush (lookupList (blocked b) k) e else lookupList (blocked b) k)"
  by (auto simp: pushBlocked_def Let_def lookupList_def)

lemma held_cong:
  assumes "blocked b' = blocked b" "ready b' = ready b" "unack b' = unack b"
    "timeWait b' = timeWait b" "delayHeap b' = delayHeap b"
  shows "held b' e l = held b e l"
  using assms by (cases l) simp_all

lemma brokerInv_cong:
  assumes "enabled b' = enabled b" "evals b' = evals b" "jobEvals b' = jobEvals b"
    "blocked b' = blocked b" "ready b' = ready b" "unack b' = unack b"
    "requeue b' = requeue b" "timeWait b' = timeWait b" "delayHeap b' = delayHeap b"
    "deliveryLimit b' = deliveryLimit b"
  shows "brokerInv b' = brokerInv b"
proof -
  have h: "held b' = held b"
    using assms by (intro ext held_cong) simp_all
  show ?thesis
    unfolding brokerInv_def keyedByID_def queuesDistinct_def onePlace_def counted_def
      represented_def blockedByJob_def withinLimit_def tokensUnique_def requeueIds_def h
    using assms by simp
qed

lemma inHand_cong:
  assumes "evals b' = evals b" "jobEvals b' = jobEvals b"
    "blocked b' = blocked b" "ready b' = ready b" "unack b' = unack b"
    "timeWait b' = timeWait b" "delayHeap b' = delayHeap b"
  shows "inHand b' e = inHand b e"
proof -
  have h: "held b' = held b"
    using assms by (intro ext held_cong) simp_all
  show ?thesis unfolding inHand_def h using assms by simp
qed

lemma inHand_ready: "inHand b e \<Longrightarrow> x \<in> set (lookupList (ready b) q) \<Longrightarrow> ID x \<noteq> ID e"
  and inHand_blocked: "inHand b e \<Longrightarrow> x \<in> set (lookupList (blocked b) k) \<Longrightarrow> ID x \<noteq> ID e"
  and inHand_delay: "inHand b e \<Longrightarrow> x \<in> set (delayHeap b) \<Longrightarrow> ID x \<noteq> ID e"
  and inHand_held: "inHand b e \<Longrightarrow> held b x l \<Longrightarrow> ID x \<noteq> ID e"
  unfolding inHand_def
  by (metis held.simps(1), metis held.simps(2), metis held.simps(5), metis)

lemma inHand_image:
  assumes "inHand b e"
  shows "ID e \<notin> ID ` set (lookupList (ready b) q)"
    and "ID e \<notin> ID ` set (lookupList (blocked b) k)"
    and "ID e \<notin> ID ` set (delayHeap b)"
  using inHand_ready [OF assms] inHand_blocked [OF assms] inHand_delay [OF assms]
  by (metis imageE)+

lemma inv_pushReady:
  assumes "brokerInv b" "inHand b e" "jobEvals b (namespacedID e) = Some (ID e)"
    "q = failedQueue \<or> lookupInt (evals b) (ID e) = 0 \<or> lookupInt (evals b) (ID e) < deliveryLimit b"
  shows "brokerInv (pushReady b e q)"
proof -
  have "keyedByID (pushReady b e q)" using assms(1) by (simp add: brokerInv_def keyedByID_def)
  moreover have "queuesDistinct (pushReady b e q)"
    using assms(1) inHand_image [OF assms(2)]
    by (simp add: brokerInv_def queuesDistinct_def distinct_heapPush)
  moreover have "onePlace (pushReady b e q)"
    using assms(1) inHand_held [OF assms(2)] unfolding brokerInv_def onePlace_def by (simp; metis)
  moreover have "counted (pushReady b e q)"
    using assms(1,2) unfolding brokerInv_def counted_def inHand_def by auto
  moreover have "represented (pushReady b e q)"
    using assms(1,2,3) unfolding brokerInv_def represented_def inHand_def by auto
  moreover have "blockedByJob (pushReady b e q)"
    using assms(1) unfolding brokerInv_def blockedByJob_def by (simp)
  moreover have "withinLimit (pushReady b e q)"
    using assms(1,2,4) unfolding brokerInv_def withinLimit_def inHand_def by auto
  moreover have "tokensUnique (pushReady b e q)" "requeueIds (pushReady b e q)" "enabled (pushReady b e q)"
    using assms(1) by (simp_all add: brokerInv_def tokensUnique_def requeueIds_def)
  ultimately show ?thesis by (simp add: brokerInv_def)
qed

lemma inHand_counter:
  assumes "brokerInv b" "inHand b e"
  shows "0 \<le> lookupInt (evals b) (ID e)"
  using assms unfolding brokerInv_def counted_def inHand_def lookupInt_def
  by (auto split: option.splits)

lemma inv_pushBlocked:
  assumes "brokerInv b" "inHand b e" "jobEvals b (namespacedID e) \<noteq> Some (ID e)"
    "lookupInt (evals b) (ID e) = 0 \<or> lookupInt (evals b) (ID e) < deliveryLimit b"
  shows "brokerInv (pushBlocked b e)"
proof -
  have c0: "\<not> lookupInt (evals b) (ID e) > 0"
    using assms(2,3) by (auto simp: inHand_def)
  have "keyedByID (pushBlocked b e)" using assms(1) by (simp add: brokerInv_def keyedByID_def)
  moreover have "queuesDistinct (pushBlocked b e)"
    using assms(1) inHand_image [OF assms(2)]
    by (simp add: brokerInv_def queuesDistinct_def distinct_heapPush)
  moreover have "onePlace (pushBlocked b e)"
    using assms(1) inHand_held [OF assms(2)] unfolding brokerInv_def onePlace_def by (simp; metis)
  moreover have "counted (pushBlocked b e)"
    using assms(1,2) unfolding brokerInv_def counted_def inHand_def by auto
  moreover have "represented (pushBlocked b e)"
    using assms(1) c0 unfolding brokerInv_def represented_def by auto
  moreover have "blockedByJob (pushBlocked b e)"
    using assms(1) unfolding brokerInv_def blockedByJob_def by auto
  moreover have "withinLimit (pushBlocked b e)"
    using assms(1,4) unfolding brokerInv_def withinLimit_def by auto
  moreover have "tokensUnique (pushBlocked b e)" "requeueIds (pushBlocked b e)" "enabled (pushBlocked b e)"
    using assms(1) by (simp_all add: brokerInv_def tokensUnique_def requeueIds_def)
  ultimately show ?thesis by (simp add: brokerInv_def)
qed

lemma inv_claim_job:
  assumes "brokerInv b" "inHand b e" "lookupStr (jobEvals b) (namespacedID e) = []"
  shows "brokerInv (b\<lparr>jobEvals := (jobEvals b)(namespacedID e \<mapsto> ID e)\<rparr>)"
    and "inHand (b\<lparr>jobEvals := (jobEvals b)(namespacedID e \<mapsto> ID e)\<rparr>) e"
proof -
  let ?b = "b\<lparr>jobEvals := (jobEvals b)(namespacedID e \<mapsto> ID e)\<rparr>"
  have h: "held ?b = held b" by (intro ext held_cong) simp_all
  have other: "namespacedID x \<noteq> namespacedID e"
    if "held b x l" "jobEvals b (namespacedID x) = Some (ID x)" for x l
  proof
    assume "namespacedID x = namespacedID e"
    then have "ID x = []" using that(2) assms(3) by (simp add: lookupStr_def)
    moreover have "ID x \<noteq> []" using assms(1) that(1) by (auto simp: brokerInv_def counted_def)
    ultimately show False by simp
  qed
  have "represented ?b"
    using assms(1) other unfolding brokerInv_def represented_def h by (simp; metis)
  then show "brokerInv ?b"
    using assms(1)
    unfolding brokerInv_def keyedByID_def queuesDistinct_def onePlace_def counted_def
      blockedByJob_def withinLimit_def tokensUnique_def requeueIds_def h
    by simp
  show "inHand ?b e"
    using assms(2) unfolding inHand_def h by simp
qed

lemma inv_enqueueLocked:
  assumes "brokerInv b" "inHand b e"
    "(q = failedQueue \<and> jobEvals b (namespacedID e) = Some (ID e))
       \<or> lookupInt (evals b) (ID e) = 0 \<or> lookupInt (evals b) (ID e) < deliveryLimit b"
  shows "brokerInv (enqueueLocked b e q)"
proof -
  have en: "enabled b" and ne: "ID e \<noteq> []"
    using assms(1,2) by (auto simp: brokerInv_def inHand_def)
  consider (free) "lookupStr (jobEvals b) (namespacedID e) = []"
    | (other) "lookupStr (jobEvals b) (namespacedID e) \<noteq> []"
        "lookupStr (jobEvals b) (namespacedID e) \<noteq> ID e"
    | (own) "lookupStr (jobEvals b) (namespacedID e) = ID e"
    by blast
  then show ?thesis
  proof cases
    case free
    let ?b = "b\<lparr>jobEvals := (jobEvals b)(namespacedID e \<mapsto> ID e)\<rparr>"
    have notrep: "jobEvals b (namespacedID e) \<noteq> Some (ID e)"
      using free ne by (auto simp: lookupStr_def)
    have "brokerInv (pushReady ?b e q)"
      using inv_claim_job [OF assms(1,2) free] assms(3) notrep
      by (intro inv_pushReady) simp_all
    then show ?thesis using en free by (simp add: enqueueLocked_def)
  next
    case other
    have notrep: "jobEvals b (namespacedID e) \<noteq> Some (ID e)"
      using other by (auto simp: lookupStr_def)
    have "brokerInv (pushBlocked b e)"
      using assms notrep by (intro inv_pushBlocked) auto
    then show ?thesis using en other by (simp add: enqueueLocked_def)
  next
    case own
    have rep: "jobEvals b (namespacedID e) = Some (ID e)"
      using own ne by (auto simp: lookupStr_def split: option.splits)
    have "brokerInv (pushReady b e q)"
      using assms rep by (intro inv_pushReady) auto
    then show ?thesis using en own ne by (simp add: enqueueLocked_def)
  qed
qed

lemma inHand_timeWait: "brokerInv b \<Longrightarrow> inHand b e \<Longrightarrow> timeWait b (ID e) = None"
proof (rule ccontr)
  assume inv: "brokerInv b" and h: "inHand b e" and "timeWait b (ID e) \<noteq> None"
  then obtain x where x: "timeWait b (ID e) = Some x" by auto
  then have "ID x = ID e" using inv by (auto simp: brokerInv_def keyedByID_def)
  then have "held b x InTimeWait" using x by simp
  then show False using inHand_held [OF h] \<open>ID x = ID e\<close> by blast
qed

lemma inHand_unack: "brokerInv b \<Longrightarrow> inHand b e \<Longrightarrow> unack b (ID e) = None"
proof (rule ccontr)
  assume inv: "brokerInv b" and h: "inHand b e" and "unack b (ID e) \<noteq> None"
  then obtain u where u: "unack b (ID e) = Some u" by auto
  then have "ID (Eval u) = ID e" using inv by (auto simp: brokerInv_def keyedByID_def)
  then have "held b (Eval u) InUnack" using u by simp
  then show False using inHand_held [OF h] \<open>ID (Eval u) = ID e\<close> by blast
qed

lemma held_processWaitingEnqueue:
  assumes "timeWait b (ID e) = None"
  shows "held (processWaitingEnqueue b e) e' l \<longleftrightarrow> held b e' l \<or> (e' = e \<and> l = InTimeWait)"
  using assms by (cases l) (auto simp: processWaitingEnqueue_def)

lemma inv_processWaitingEnqueue:
  assumes "brokerInv b" "inHand b e"
    "lookupInt (evals b) (ID e) = 0 \<or> lookupInt (evals b) (ID e) < deliveryLimit b"
  shows "brokerInv (processWaitingEnqueue b e)"
proof -
  let ?b = "processWaitingEnqueue b e"
  note h = held_processWaitingEnqueue [OF inHand_timeWait [OF assms(1,2)]]
  have f [simp]: "enabled ?b = enabled b" "evals ?b = evals b" "jobEvals ?b = jobEvals b"
    "unack ?b = unack b" "requeue ?b = requeue b" "delayHeap ?b = delayHeap b"
    "blocked ?b = blocked b" "ready ?b = ready b" "deliveryLimit ?b = deliveryLimit b"
    "timeWait ?b = (timeWait b)(ID e \<mapsto> e)"
    by (simp_all add: processWaitingEnqueue_def)
  have "keyedByID ?b" using assms(1) by (simp add: brokerInv_def keyedByID_def)
  moreover have "queuesDistinct ?b"
    using assms(1) by (simp add: brokerInv_def queuesDistinct_def)
  moreover have "onePlace ?b"
    using assms(1) inHand_held [OF assms(2)] unfolding brokerInv_def onePlace_def h by metis
  moreover have "counted ?b"
    using assms(1,2) unfolding brokerInv_def counted_def inHand_def h by auto
  moreover have "represented ?b"
    using assms(1,2) unfolding brokerInv_def represented_def inHand_def h by auto
  moreover have "blockedByJob ?b"
    using assms(1) unfolding brokerInv_def blockedByJob_def h by simp
  moreover have "withinLimit ?b"
    using assms(1,3) unfolding brokerInv_def withinLimit_def h by auto
  moreover have "tokensUnique ?b" "requeueIds ?b" "enabled ?b"
    using assms(1) by (simp_all add: brokerInv_def tokensUnique_def requeueIds_def)
  ultimately show ?thesis by (simp add: brokerInv_def)
qed

lemma inv_delayHeapPush:
  assumes "brokerInv b" "inHand b e"
    "lookupInt (evals b) (ID e) = 0 \<or> lookupInt (evals b) (ID e) < deliveryLimit b"
  shows "brokerInv (b\<lparr>delayHeap := delayHeapPush (delayHeap b) e, stats := st, delayedEvalsUpdateCh := ch\<rparr>)"
proof -
  let ?b = "b\<lparr>delayHeap := delayHeapPush (delayHeap b) e, stats := st, delayedEvalsUpdateCh := ch\<rparr>"
  have h: "held ?b e' l \<longleftrightarrow> held b e' l \<or> (e' = e \<and> l = InDelay)" for e' l
    by (cases l) (auto simp: delayHeapPush_def)
  have "keyedByID ?b" using assms(1) by (simp add: brokerInv_def keyedByID_def)
  moreover have "queuesDistinct ?b"
    using assms(1) inHand_image [OF assms(2)]
    by (simp add: brokerInv_def queuesDistinct_def delayHeapPush_def)
  moreover have "onePlace ?b"
    using assms(1) inHand_held [OF assms(2)] unfolding brokerInv_def onePlace_def h by metis
  moreover have "counted ?b"
    using assms(1,2) unfolding brokerInv_def counted_def inHand_def h by auto
  moreover have "represented ?b"
    using assms(1,2) unfolding brokerInv_def represented_def inHand_def h by auto
  moreover have "blockedByJob ?b"
    using assms(1) unfolding brokerInv_def blockedByJob_def h by simp
  moreover have "withinLimit ?b"
    using assms(1,3) unfolding brokerInv_def withinLimit_def h by auto
  moreover have "tokensUnique ?b" "requeueIds ?b" "enabled ?b"
    using assms(1) by (simp_all add: brokerInv_def tokensUnique_def requeueIds_def)
  ultimately show ?thesis by (simp add: brokerInv_def)
qed

lemma inv_new_counter:
  assumes "brokerInv b" "ID e \<noteq> []" "evals b (ID e) = None"
  shows "brokerInv (b\<lparr>evals := (evals b)(ID e \<mapsto> 0)\<rparr>)"
    and "inHand (b\<lparr>evals := (evals b)(ID e \<mapsto> 0)\<rparr>) e"
    and "lookupInt (evals (b\<lparr>evals := (evals b)(ID e \<mapsto> 0)\<rparr>)) (ID e) = 0"
proof -
  let ?b = "b\<lparr>evals := (evals b)(ID e \<mapsto> 0)\<rparr>"
  have h: "held ?b = held b" by (intro ext held_cong) simp_all
  have other: "ID x \<noteq> ID e" if "held b x l" for x l
    using assms(1,3) that by (auto simp: brokerInv_def counted_def)
  then have l: "lookupInt (evals ?b) (ID x) = lookupInt (evals b) (ID x)" if "held b x l" for x l
    using that by (simp add: lookupInt_def)
  have "counted ?b"
    using assms(1) unfolding brokerInv_def counted_def h by auto
  moreover have "represented ?b"
    using assms(1) l unfolding brokerInv_def represented_def h by (simp; metis)
  moreover have "withinLimit ?b"
    using assms(1) l unfolding brokerInv_def withinLimit_def h by (simp; metis)
  ultimately show "brokerInv ?b"
    using assms(1)
    unfolding brokerInv_def keyedByID_def queuesDistinct_def onePlace_def
      blockedByJob_def tokensUnique_def requeueIds_def h
    by simp
  show "inHand ?b e"
    using assms(2) other unfolding inHand_def h by (auto simp: lookupInt_def)
  show "lookupInt (evals ?b) (ID e) = 0" by (simp add: lookupInt_def)
qed

lemma inv_requeue:
  assumes "brokerInv b" "requeueIds b'"
    "enabled b' = enabled b" "evals b' = evals b" "jobEvals b' = jobEvals b"
    "blocked b' = blocked b" "ready b' = ready b" "unack b' = unack b"
    "timeWait b' = timeWait b" "delayHeap b' = delayHeap b"
    "deliveryLimit b' = deliveryLimit b"
  shows "brokerInv b'"
proof -
  have h: "held b' = held b"
    using assms by (intro ext held_cong) simp_all
  show ?thesis
    using assms(1,2)
    unfolding brokerInv_def keyedByID_def queuesDistinct_def onePlace_def counted_def
      represented_def blockedByJob_def withinLimit_def tokensUnique_def h assms(3-11)
    by simp
qed

lemma inv_deleteRequeue: "brokerInv b \<Longrightarrow> brokerInv (deleteRequeue b t)"
proof -
  assume inv: "brokerInv b"
  have "requeueIds (deleteRequeue b t)"
    using inv by (auto simp: deleteRequeue_def brokerInv_def requeueIds_def split: if_splits)
  then show ?thesis
    by (rule inv_requeue [OF inv]) (simp_all add: deleteRequeue_def)
qed

lemma inv_processEnqueue:
  assumes "brokerInv b" "ID e \<noteq> []"
  shows "brokerInv (processEnqueue b e token)"
proof (cases "evals b (ID e) = None")
  case False
  have "requeueIds (b\<lparr>requeue := (requeue b)(token \<mapsto> e)\<rparr>)"
    using assms by (auto simp: brokerInv_def requeueIds_def)
  then have "brokerInv (b\<lparr>requeue := (requeue b)(token \<mapsto> e)\<rparr>)"
    by (rule inv_requeue [OF assms(1)]) simp_all
  then show ?thesis
    using assms(1) False by (auto simp: processEnqueue_def split: option.splits)
next
  case True
  let ?b = "b\<lparr>evals := (evals b)(ID e \<mapsto> 0)\<rparr>"
  note n = inv_new_counter [OF assms True]
  have en: "enabled b" using assms(1) by (simp add: brokerInv_def)
  have "brokerInv (processWaitingEnqueue ?b e)"
    using n by (intro inv_processWaitingEnqueue) simp_all
  moreover have "brokerInv (?b\<lparr>delayHeap := delayHeapPush (delayHeap ?b) e,
      stats := (stats ?b)\<lparr>TotalWaiting := TotalWaiting (stats ?b) + 1\<rparr>,
      delayedEvalsUpdateCh := True\<rparr>)"
    using n by (intro inv_delayHeapPush) simp_all
  moreover have "brokerInv (enqueueLocked ?b e (Type e))"
    using n by (intro inv_enqueueLocked) simp_all
  ultimately show ?thesis
    using True en by (simp add: processEnqueue_def Let_def)
qed

lemma inv_removed:
  assumes inv: "brokerInv b"
    and h: "\<And>x l. held b1 x l \<Longrightarrow> held b x l"
    and same: "evals b1 = evals b" "jobEvals b1 = jobEvals b" "deliveryLimit b1 = deliveryLimit b"
      "enabled b1 = enabled b" "requeue b1 = requeue b"
    and sub: "\<And>i u. unack b1 i = Some u \<Longrightarrow> unack b i = Some u"
      "\<And>i e. timeWait b1 i = Some e \<Longrightarrow> timeWait b i = Some e"
    and dist: "queuesDistinct b1"
  shows "brokerInv b1"
proof -
  have "keyedByID b1" using inv sub unfolding brokerInv_def keyedByID_def by blast
  moreover have "onePlace b1" using inv h unfolding brokerInv_def onePlace_def by blast
  moreover have "counted b1" using inv h unfolding brokerInv_def counted_def same by blast
  moreover have "represented b1"
    using inv h unfolding brokerInv_def represented_def same by blast
  moreover have "blockedByJob b1" using inv h unfolding brokerInv_def blockedByJob_def by blast
  moreover have "withinLimit b1"
    using inv h unfolding brokerInv_def withinLimit_def same by blast
  moreover have "tokensUnique b1" using inv sub unfolding brokerInv_def tokensUnique_def by blast
  moreover have "requeueIds b1" "enabled b1"
    using inv same by (simp_all add: brokerInv_def requeueIds_def)
  ultimately show ?thesis using dist by (simp add: brokerInv_def)
qed

lemma inHand_removed:
  assumes inv: "brokerInv b" and e: "held b e l0"
    and h: "\<And>x l. held b1 x l \<Longrightarrow> held b x l \<and> \<not> (l = l0 \<and> ID x = ID e)"
    and same: "evals b1 = evals b" "jobEvals b1 = jobEvals b"
  shows "inHand b1 e"
proof -
  have "ID x \<noteq> ID e" if "held b1 x l" for x l
    using h [OF that] inv e unfolding brokerInv_def onePlace_def by metis
  moreover have "ID e \<noteq> []" "evals b (ID e) \<noteq> None"
    using inv e by (auto simp: brokerInv_def counted_def)
  moreover have "jobEvals b (namespacedID e) = Some (ID e)" if "lookupInt (evals b) (ID e) > 0"
    using inv e that unfolding brokerInv_def represented_def by blast
  ultimately show ?thesis unfolding inHand_def same by blast
qed

lemma pop_ready:
  assumes inv: "brokerInv b" and pop: "heapPop (lookupList (ready b) q) = Some (e, rest)"
  shows "brokerInv (b\<lparr>ready := (ready b)(q \<mapsto> rest)\<rparr>)"
    and "inHand (b\<lparr>ready := (ready b)(q \<mapsto> rest)\<rparr>) e"
    and "held b e (InReady q)"
proof -
  let ?b = "b\<lparr>ready := (ready b)(q \<mapsto> rest)\<rparr>"
  have d: "distinct (map ID (lookupList (ready b) q))"
    using inv by (simp add: brokerInv_def queuesDistinct_def)
  note p = heapPop_distinct [OF pop d]
  show e: "held b e (InReady q)" using p(3) by simp
  have h: "held b x l \<and> \<not> (l = InReady q \<and> ID x = ID e)" if "held ?b x l" for x l
    using that p(2) by (cases l) (auto simp: lookupList_def split: if_splits)
  have "queuesDistinct ?b"
    using inv p(1) by (auto simp: brokerInv_def queuesDistinct_def lookupList_def)
  then show "brokerInv ?b"
    using h by (intro inv_removed [OF inv]) auto
  show "inHand ?b e"
    using h by (intro inHand_removed [OF inv e]) auto
qed

lemma pop_blocked:
  assumes inv: "brokerInv b" and pop: "heapPop (lookupList (blocked b) k) = Some (e, rest)"
    and bl: "blocked b1 = (if length rest > 0 then (blocked b)(k \<mapsto> rest) else (blocked b)(k := None))"
    and same: "ready b1 = ready b" "unack b1 = unack b" "timeWait b1 = timeWait b"
      "delayHeap b1 = delayHeap b" "evals b1 = evals b" "jobEvals b1 = jobEvals b"
      "deliveryLimit b1 = deliveryLimit b" "enabled b1 = enabled b" "requeue b1 = requeue b"
  shows "brokerInv b1" and "inHand b1 e" and "held b e (InBlocked k)"
proof -
  have d: "distinct (map ID (lookupList (blocked b) k))"
    using inv by (simp add: brokerInv_def queuesDistinct_def)
  note p = heapPop_distinct [OF pop d]
  have l: "lookupList (blocked b1) k' = (if k' = k then rest else lookupList (blocked b) k')" for k'
    unfolding bl by (simp add: lookupList_def)
  show e: "held b e (InBlocked k)" using p(3) by simp
  have h: "held b x l \<and> \<not> (l = InBlocked k \<and> ID x = ID e)" if "held b1 x l" for x l
  proof (cases l)
    case (InBlocked k')
    then show ?thesis using that p(2) by (cases "k' = k") (simp_all add: l)
  qed (use that in \<open>simp_all add: same\<close>)
  have "queuesDistinct b1"
    using inv p(1) unfolding brokerInv_def queuesDistinct_def l same by simp
  then show "brokerInv b1"
    using h same by (intro inv_removed [OF inv]) simp_all
  show "inHand b1 e"
    using h same by (intro inHand_removed [OF inv e]) simp_all
qed

lemma remove_unack:
  assumes inv: "brokerInv b" and u: "unack b i = Some u"
    and b1: "unack b1 = (unack b)(i := None)"
      "ready b1 = ready b" "blocked b1 = blocked b" "timeWait b1 = timeWait b"
      "delayHeap b1 = delayHeap b" "evals b1 = evals b" "jobEvals b1 = jobEvals b"
      "deliveryLimit b1 = deliveryLimit b" "enabled b1 = enabled b" "requeue b1 = requeue b"
  shows "brokerInv b1" and "inHand b1 (Eval u)" and "held b (Eval u) InUnack" and "ID (Eval u) = i"
    and "jobEvals b1 (namespacedID (Eval u)) = Some i"
proof -
  show i: "ID (Eval u) = i" using inv u by (auto simp: brokerInv_def keyedByID_def)
  show e: "held b (Eval u) InUnack" using u i by simp
  have h: "held b x l \<and> \<not> (l = InUnack \<and> ID x = ID (Eval u))" if "held b1 x l" for x l
    using that i by (cases l) (auto simp: b1 split: if_splits)
  have "queuesDistinct b1"
    using inv by (auto simp: brokerInv_def queuesDistinct_def b1)
  then show "brokerInv b1"
    using h b1 by (intro inv_removed [OF inv]) (auto split: if_splits)
  show "inHand b1 (Eval u)"
    using h b1 by (intro inHand_removed [OF inv e]) auto
  show "jobEvals b1 (namespacedID (Eval u)) = Some i"
    using inv e i unfolding brokerInv_def represented_def b1 by (metis inFlight.simps(2))
qed

lemma remove_timeWait:
  assumes inv: "brokerInv b" and u: "timeWait b (ID e) = Some e"
    and b1: "timeWait b1 = (timeWait b)(ID e := None)"
      "ready b1 = ready b" "blocked b1 = blocked b" "unack b1 = unack b"
      "delayHeap b1 = delayHeap b" "evals b1 = evals b" "jobEvals b1 = jobEvals b"
      "deliveryLimit b1 = deliveryLimit b" "enabled b1 = enabled b" "requeue b1 = requeue b"
  shows "brokerInv b1" and "inHand b1 e"
    and "lookupInt (evals b1) (ID e) = 0 \<or> lookupInt (evals b1) (ID e) < deliveryLimit b1"
proof -
  have e: "held b e InTimeWait" using u by simp
  have h: "held b x l \<and> \<not> (l = InTimeWait \<and> ID x = ID e)" if "held b1 x l" for x l
    using that by (cases l) (auto simp: b1 split: if_splits)
  have "queuesDistinct b1"
    using inv by (auto simp: brokerInv_def queuesDistinct_def b1)
  then show "brokerInv b1"
    using h b1 by (intro inv_removed [OF inv]) (auto split: if_splits)
  show "inHand b1 e"
    using h b1 by (intro inHand_removed [OF inv e]) auto
  show "lookupInt (evals b1) (ID e) = 0 \<or> lookupInt (evals b1) (ID e) < deliveryLimit b1"
    using inv e unfolding brokerInv_def withinLimit_def b1 by blast
qed

lemma remove_delay:
  assumes inv: "brokerInv b" and u: "e \<in> set (delayHeap b)"
    and b1: "delayHeap b1 = delayHeapRemove (delayHeap b) e"
      "ready b1 = ready b" "blocked b1 = blocked b" "unack b1 = unack b"
      "timeWait b1 = timeWait b" "evals b1 = evals b" "jobEvals b1 = jobEvals b"
      "deliveryLimit b1 = deliveryLimit b" "enabled b1 = enabled b" "requeue b1 = requeue b"
  shows "brokerInv b1" and "inHand b1 e"
    and "lookupInt (evals b1) (ID e) = 0 \<or> lookupInt (evals b1) (ID e) < deliveryLimit b1"
proof -
  have e: "held b e InDelay" using u by simp
  have d: "distinct (map ID (delayHeap b))"
    using inv by (simp add: brokerInv_def queuesDistinct_def)
  have same: "x = e" if "x \<in> set (delayHeap b)" "ID x = ID e" for x
    using d u that by (meson distinct_map inj_on_def)
  have h: "held b x l \<and> \<not> (l = InDelay \<and> ID x = ID e)" if "held b1 x l" for x l
    using that same by (cases l) (auto simp: b1 delayHeapRemove_def split: if_splits)
  have "queuesDistinct b1"
    using inv by (auto simp: brokerInv_def queuesDistinct_def b1 delayHeapRemove_def distinct_map_filter)
  then show "brokerInv b1"
    using h b1 by (intro inv_removed [OF inv]) (auto split: if_splits)
  show "inHand b1 e"
    using h b1 by (intro inHand_removed [OF inv e]) auto
  show "lookupInt (evals b1) (ID e) = 0 \<or> lookupInt (evals b1) (ID e) < deliveryLimit b1"
    using inv e unfolding brokerInv_def withinLimit_def b1 by blast
qed

lemma inv_deliver:
  assumes inv: "brokerInv b1" and hand: "inHand b1 e"
    and rep: "jobEvals b1 (namespacedID e) = Some (ID e)"
    and tok: "token \<noteq> []" "\<forall>i u. unack b1 i = Some u \<longrightarrow> Token u \<noteq> token"
    and un: "unack b2 = (unack b1)(ID e \<mapsto> \<lparr>Eval = e, Token = token, NackTimer = t\<rparr>)"
    and ev: "evals b2 = (evals b1)(ID e \<mapsto> lookupInt (evals b1) (ID e) + 1)"
    and same: "ready b2 = ready b1" "blocked b2 = blocked b1" "timeWait b2 = timeWait b1"
      "delayHeap b2 = delayHeap b1" "jobEvals b2 = jobEvals b1"
      "deliveryLimit b2 = deliveryLimit b1" "enabled b2 = enabled b1" "requeue b2 = requeue b1"
  shows "brokerInv b2"
proof -
  have nu: "unack b1 (ID e) = None" by (rule inHand_unack [OF inv hand])
  have h: "held b2 x l \<longleftrightarrow> held b1 x l \<or> (x = e \<and> l = InUnack)" for x l
  proof (cases l)
    case InUnack
    then show ?thesis using nu by (cases "ID x = ID e") (auto simp: un)
  qed (simp_all add: same)
  have other: "ID x \<noteq> ID e" if "held b1 x l" for x l
    using inHand_held [OF hand that] .
  have lk: "lookupInt (evals b2) (ID x) = lookupInt (evals b1) (ID x)" if "held b1 x l" for x l
    using other [OF that] by (simp add: ev lookupInt_def)
  have c: "0 \<le> lookupInt (evals b1) (ID e)" by (rule inHand_counter [OF inv hand])
  have "keyedByID b2" using inv unfolding brokerInv_def keyedByID_def un same by simp
  moreover have "queuesDistinct b2"
    using inv unfolding brokerInv_def queuesDistinct_def same by simp
  moreover have "onePlace b2"
    using inv other unfolding brokerInv_def onePlace_def h by metis
  moreover have "counted b2"
    using inv hand c unfolding brokerInv_def counted_def inHand_def h ev by auto
  moreover have "represented b2"
    using inv rep lk unfolding brokerInv_def represented_def h same by metis
  moreover have "blockedByJob b2"
    using inv unfolding brokerInv_def blockedByJob_def h by simp
  moreover have "withinLimit b2"
    using inv lk unfolding brokerInv_def withinLimit_def h same by metis
  moreover have "tokensUnique b2"
    using inv tok unfolding brokerInv_def tokensUnique_def un by (auto split: if_splits)
  moreover have "requeueIds b2" "enabled b2"
    using inv by (simp_all add: brokerInv_def requeueIds_def same)
  ultimately show ?thesis by (simp add: brokerInv_def)
qed

lemma inv_dequeueForSched:
  assumes inv: "brokerInv b" and tok: "token \<noteq> []" "\<forall>i u. unack b i = Some u \<longrightarrow> Token u \<noteq> token"
    and d: "dequeueForSched b sched token = Return (r, b')"
  shows "brokerInv b'"
proof -
  from d obtain e pending bySched where
    pop: "heapPop (lookupList (ready b) sched) = Some (e, pending)"
    and b': "b' = b\<lparr>ready := (ready b)(sched \<mapsto> pending),
                   unack := (unack b)(ID e \<mapsto>
                      \<lparr>Eval = e, Token = token, NackTimer = Running\<rparr>),
                   evals := (evals b)(ID e \<mapsto> lookupInt (evals b) (ID e) + 1),
                   stats := (stats b)\<lparr>TotalReady := TotalReady (stats b) - 1,
                      TotalUnacked := TotalUnacked (stats b) + 1,
                      ByScheduler := (ByScheduler (stats b))(sched \<mapsto>
                         bySched\<lparr>Ready := Ready bySched - 1,
                                  Unacked := Unacked bySched + 1\<rparr>)\<rparr>\<rparr>"
    by (auto simp: dequeueForSched_def split: option.splits prod.splits)
  let ?b1 = "b\<lparr>ready := (ready b)(sched \<mapsto> pending)\<rparr>"
  note p = pop_ready [OF inv pop]
  have "jobEvals b (namespacedID e) = Some (ID e)"
    using inv p(3) unfolding brokerInv_def represented_def by (metis inFlight.simps(1))
  then have rep: "jobEvals ?b1 (namespacedID e) = Some (ID e)" by simp
  show ?thesis
    by (rule inv_deliver [OF p(1) p(2) rep tok(1)]) (use tok(2) in \<open>simp_all add: b'\<close>)
qed

lemma inv_scanForSchedulers:
  assumes inv: "brokerInv b" and tok: "token \<noteq> []" "\<forall>i u. unack b i = Some u \<longrightarrow> Token u \<noteq> token"
    and d: "scanForSchedulers b schedulers token rnd = Return (Inr (r, b'))"
  shows "brokerInv b'"
  using d inv inv_dequeueForSched [OF inv tok]
  by (auto simp: scanForSchedulers_def Let_def split: if_splits outcome.splits)

lemma inv_promoteBlocked:
  assumes inv: "brokerInv b" and p: "promoteBlocked b k = Return b2"
  shows "brokerInv b2"
proof (cases "length (lookupList (blocked b) k) \<noteq> 0")
  case False
  then show ?thesis using p inv by (simp add: promoteBlocked_def)
next
  case True
  then obtain e rest where pop: "heapPop (lookupList (blocked b) k) = Some (e, rest)"
    by (cases "heapPop (lookupList (blocked b) k)") (auto simp: heapPop_None)
  let ?b1 = "b\<lparr>blocked := (if length rest > 0 then (blocked b)(k \<mapsto> rest)
                               else (blocked b)(k := None)),
                  stats := (stats b)\<lparr>TotalBlocked := TotalBlocked (stats b) - 1\<rparr>\<rparr>"
  have b2: "b2 = enqueueLocked ?b1 e (Type e)"
    using p True pop by (simp add: promoteBlocked_def Let_def)
  have pb: "brokerInv ?b1" "inHand ?b1 e" "held b e (InBlocked k)"
    by (rule pop_blocked [OF inv pop, of ?b1]; simp)+
  have "lookupInt (evals b) (ID e) = 0 \<or> lookupInt (evals b) (ID e) < deliveryLimit b"
    using inv pb(3) unfolding brokerInv_def withinLimit_def
    by (metis place.distinct(1) place.distinct(9))
  then show ?thesis
    unfolding b2 using pb by (intro inv_enqueueLocked) simp_all
qed

lemma inv_retire:
  assumes inv: "brokerInv bA" and hand: "inHand bA e"
    and rep: "jobEvals bA (namespacedID e) = Some (ID e)"
    and ev: "evals b1 = (evals bA)(ID e := None)"
    and je: "jobEvals b1 = (jobEvals bA)(namespacedID e := None)"
    and same: "ready b1 = ready bA" "blocked b1 = blocked bA" "timeWait b1 = timeWait bA"
      "delayHeap b1 = delayHeap bA" "unack b1 = unack bA"
      "deliveryLimit b1 = deliveryLimit bA" "enabled b1 = enabled bA" "requeue b1 = requeue bA"
  shows "brokerInv b1"
proof -
  have h: "held b1 = held bA"
    using same by (intro ext held_cong) simp_all
  have other: "ID x \<noteq> ID e" if "held bA x l" for x l
    using inHand_held [OF hand that] .
  have lk: "lookupInt (evals b1) (ID x) = lookupInt (evals bA) (ID x)"
     "evals b1 (ID x) = evals bA (ID x)" if "held bA x l" for x l
    using other [OF that] by (simp_all add: ev lookupInt_def)
  have jk: "jobEvals b1 (namespacedID x) = Some (ID x)"
    if "held bA x l" "jobEvals bA (namespacedID x) = Some (ID x)" for x l
    using other [OF that(1)] that(2) rep by (auto simp: je)
  have "counted b1"
    using inv lk unfolding brokerInv_def counted_def h ev by (auto split: if_splits)
  moreover have "represented b1"
    using inv lk jk unfolding brokerInv_def represented_def h by metis
  moreover have "withinLimit b1"
    using inv lk unfolding brokerInv_def withinLimit_def h same by metis
  ultimately show ?thesis
    using inv
    unfolding brokerInv_def keyedByID_def queuesDistinct_def onePlace_def
      blockedByJob_def tokensUnique_def requeueIds_def h same
    by simp
qed

lemma inv_Ack:
  assumes inv: "brokerInv b" and a: "Ack b i t = Return (r, b')"
  shows "brokerInv b'"
proof (cases "\<exists>un. unack b i = Some un \<and> Token un = t \<and> fst (timerStop (NackTimer un))")
  case False
  then have "b' = deleteRequeue b t"
    using a by (auto simp: Ack_def split: option.splits if_splits)
  then show ?thesis using inv by (simp add: inv_deleteRequeue)
next
  case True
  then obtain un where un: "unack b i = Some un" "Token un = t" "fst (timerStop (NackTimer un))"
    by blast
  define queue where "queue = (if lookupInt (evals b) i > deliveryLimit b then failedQueue
                              else Type (Eval un))"
  from a un obtain bySched where bs: "ByScheduler (stats b) queue = Some bySched"
    by (auto simp: Ack_def queue_def split: option.splits)
  define b1 where "b1 = b\<lparr>stats := (stats b)\<lparr>TotalUnacked := TotalUnacked (stats b) - 1,
                             ByScheduler := (ByScheduler (stats b))(queue \<mapsto>
                                bySched\<lparr>Unacked := Unacked bySched - 1\<rparr>)\<rparr>,
                           unack := (unack b)(i := None),
                           evals := (evals b)(i := None),
                           jobEvals := (jobEvals b)(namespacedID (Eval un) := None)\<rparr>"
  from a un bs obtain b2 where
    p: "promoteBlocked b1 (namespacedID (Eval un)) = Return b2"
    and b': "b' = deleteRequeue (case requeue b2 t of None \<Rightarrow> b2
                                 | Some eval \<Rightarrow> processEnqueue b2 eval []) t"
    unfolding Ack_def b1_def queue_def
    by (auto simp: Let_def split: outcome.splits)
  let ?bA = "b\<lparr>unack := (unack b)(i := None)\<rparr>"
  have ra: "brokerInv ?bA" "inHand ?bA (Eval un)" "held b (Eval un) InUnack" "ID (Eval un) = i"
    "jobEvals ?bA (namespacedID (Eval un)) = Some i"
    by (rule remove_unack [OF inv un(1), of ?bA]; simp)+
  have rep: "jobEvals b (namespacedID (Eval un)) = Some i" using ra(5) by simp
  have "brokerInv b1"
    by (rule inv_retire [OF ra(1,2)]) (simp_all add: ra(4) rep b1_def)
  then have i2: "brokerInv b2" using p by (rule inv_promoteBlocked)
  have "brokerInv (case requeue b2 t of None \<Rightarrow> b2 | Some eval \<Rightarrow> processEnqueue b2 eval [])"
  proof (cases "requeue b2 t")
    case None
    then show ?thesis using i2 by simp
  next
    case (Some eval)
    then have "ID eval \<noteq> []" using i2 by (auto simp: brokerInv_def requeueIds_def)
    then show ?thesis using Some i2 by (simp add: inv_processEnqueue)
  qed
  then show ?thesis unfolding b' by (rule inv_deleteRequeue)
qed

lemma inHand_Wait:
  assumes "inHand b e"
  shows "inHand b (e\<lparr>Wait := d\<rparr>)"
  using assms by (simp add: inHand_def namespacedID_def)

lemma inv_Nack:
  assumes inv: "brokerInv b0" and a: "Nack b0 i t = Return (r, b')"
  shows "brokerInv b'"
proof -
  define b where "b = deleteRequeue b0 t"
  have invb: "brokerInv b" unfolding b_def using inv by (rule inv_deleteRequeue)
  show ?thesis
  proof (cases "\<exists>un. unack b i = Some un \<and> Token un = t")
    case False
    then have "b' = b"
      using a by (auto simp: Nack_def Let_def b_def split: option.splits if_splits)
    then show ?thesis using invb by simp
  next
    case True
    then obtain un where un: "unack b i = Some un" "Token un = t" by blast
    from a un obtain bySched where bs: "ByScheduler (stats b) (Type (Eval un)) = Some bySched"
      by (auto simp: Nack_def Let_def b_def split: option.splits)
    define b1 where "b1 = b\<lparr>unack := (unack b)(i := None),
                           stats := (stats b)\<lparr>TotalUnacked := TotalUnacked (stats b) - 1,
                             ByScheduler := (ByScheduler (stats b))(Type (Eval un) \<mapsto>
                                bySched\<lparr>Unacked := Unacked bySched - 1\<rparr>)\<rparr>\<rparr>"
    define e where "e = (Eval un)\<lparr>Wait := nackReenqueueDelay b1 (Eval un) (lookupInt (evals b1) i)\<rparr>"
    have ra: "brokerInv b1" "inHand b1 (Eval un)" "held b (Eval un) InUnack" "ID (Eval un) = i"
      "jobEvals b1 (namespacedID (Eval un)) = Some i"
      by (rule remove_unack [OF invb un(1), of b1]; simp add: b1_def)+
    have he: "inHand b1 e" unfolding e_def using ra(2) by (rule inHand_Wait)
    have ide: "ID e = i" "Type e = Type (Eval un)" by (simp_all add: e_def ra)
    have res: "b' = (if lookupInt (evals b1) i \<ge> deliveryLimit b1
                     then enqueueLocked b1 (Eval un) failedQueue
                     else if Wait e > 0 then processWaitingEnqueue b1 e
                     else enqueueLocked b1 e (Type e))"
      using a un bs unfolding Nack_def b_def [symmetric] Let_def b1_def [symmetric] e_def
      by (auto simp: b1_def split: if_splits)
    show ?thesis
    proof (cases "lookupInt (evals b1) i \<ge> deliveryLimit b1")
      case True
      have "brokerInv (enqueueLocked b1 (Eval un) failedQueue)"
        using ra by (intro inv_enqueueLocked) simp_all
      then show ?thesis using res True by simp
    next
      case False
      then have lim: "lookupInt (evals b1) (ID e) < deliveryLimit b1" by (simp add: ide)
      have "brokerInv (processWaitingEnqueue b1 e)" "brokerInv (enqueueLocked b1 e (Type e))"
        using ra(1) he lim by (simp_all add: inv_processWaitingEnqueue inv_enqueueLocked)
      then show ?thesis using res False by simp
    qed
  qed
qed

lemma inv_enqueueWaiting:
  assumes inv: "brokerInv b" and w: "timeWait b (ID e) = Some e"
  shows "brokerInv (enqueueWaiting b e)"
proof -
  let ?b1 = "b\<lparr>timeWait := (timeWait b)(ID e := None),
          stats := (stats b)\<lparr>TotalWaiting := TotalWaiting (stats b) - 1\<rparr>\<rparr>"
  have r: "brokerInv ?b1" "inHand ?b1 e"
    "lookupInt (evals ?b1) (ID e) = 0 \<or> lookupInt (evals ?b1) (ID e) < deliveryLimit ?b1"
    by (rule remove_timeWait [OF inv w, of ?b1]; simp)+
  show ?thesis
    unfolding enqueueWaiting_def using r by (intro inv_enqueueLocked) simp_all
qed

lemma inv_delayedEvalFire:
  assumes inv: "brokerInv b" and w: "e \<in> set (delayHeap b)"
  shows "brokerInv (delayedEvalFire b e)"
proof -
  let ?b1 = "b\<lparr>delayHeap := delayHeapRemove (delayHeap b) e,
          stats := (stats b)\<lparr>TotalWaiting := TotalWaiting (stats b) - 1\<rparr>\<rparr>"
  have r: "brokerInv ?b1" "inHand ?b1 e"
    "lookupInt (evals ?b1) (ID e) = 0 \<or> lookupInt (evals ?b1) (ID e) < deliveryLimit ?b1"
    by (rule remove_delay [OF inv w, of ?b1]; simp)+
  show ?thesis
    unfolding delayedEvalFire_def using r by (intro inv_enqueueLocked) simp_all
qed

lemma inv_timer:
  assumes inv: "brokerInv b" and u: "unack b i = Some un"
  shows "brokerInv (b\<lparr>unack := (unack b)(i \<mapsto> un\<lparr>NackTimer := tm\<rparr>)\<rparr>)"
proof -
  let ?b = "b\<lparr>unack := (unack b)(i \<mapsto> un\<lparr>NackTimer := tm\<rparr>)\<rparr>"
  have h: "held ?b x l = held b x l" for x l
    using u by (cases l) (auto split: option.splits)
  have "keyedByID ?b" using inv u unfolding brokerInv_def keyedByID_def by auto
  moreover have "tokensUnique ?b"
  proof -
    have old: "\<exists>v'. unack b j = Some v' \<and> Token v' = Token v" if "unack ?b j = Some v" for j v
      using that u by (cases "j = i") auto
    have "j = k" if "unack ?b j = Some v" "unack ?b k = Some w" "Token v = Token w" for j k v w
      using old [OF that(1)] old [OF that(2)] that(3) inv
      unfolding brokerInv_def tokensUnique_def by metis
    moreover have "Token v \<noteq> []" if "unack ?b j = Some v" for j v
      using old [OF that] inv unfolding brokerInv_def tokensUnique_def by metis
    ultimately show ?thesis unfolding tokensUnique_def by blast
  qed
  ultimately show ?thesis
    using inv
    unfolding brokerInv_def queuesDistinct_def onePlace_def counted_def represented_def
      blockedByJob_def withinLimit_def requeueIds_def h
    by simp
qed

lemma inv_timer_ops:
  assumes inv: "brokerInv b"
  shows "brokerInv (nackTimerExpire b i)"
    and "brokerInv (snd (PauseNackTimeout b i t))"
    and "brokerInv (snd (ResumeNackTimeout b i t))"
    and "brokerInv (snd (OutstandingReset b i t))"
  using inv inv_timer [OF inv]
  by (auto simp: nackTimerExpire_def PauseNackTimeout_def ResumeNackTimeout_def
      OutstandingReset_def Let_def split: option.splits)

lemma inv_start:
  assumes "NewEvalBroker timeout initialDelay subsequentDelay limit = Inr b0"
  shows "brokerInv (SetEnabled b0 True)"
proof -
  have b0: "b0 = newBroker timeout initialDelay subsequentDelay limit"
    using assms by (auto simp: NewEvalBroker_def split: if_splits)
  have h: "\<not> held (SetEnabled b0 True) e l" for e l
    by (cases l) (simp_all add: b0 SetEnabled_def newBroker_def lookupList_def)
  show ?thesis
    unfolding brokerInv_def keyedByID_def queuesDistinct_def onePlace_def counted_def
      represented_def blockedByJob_def withinLimit_def tokensUnique_def requeueIds_def
    using h by (simp add: b0 SetEnabled_def newBroker_def lookupList_def)
qed

lemma step_inv:
  assumes "brokerInv b" and "step namedEval b ev b'"
  shows "brokerInv b'"
  using assms(2,1)
proof (induction rule: step.induct)
  case (enqueue eval b token)
  then show ?case by (simp add: inv_processEnqueue namedEval_def)
next
  case (dequeue token b schedulers rnd r b')
  then show ?case using inv_scanForSchedulers by blast
next
  case (ack b evalID token err b')
  then show ?case using inv_Ack by blast
next
  case (nack b evalID token err b')
  then show ?case using inv_Nack by blast
next
  case (waitOver b eval)
  then show ?case by (simp add: inv_enqueueWaiting)
next
  case (delayOver eval b)
  then show ?case by (simp add: inv_delayedEvalFire)
qed (simp_all add: inv_timer_ops)

lemma reachable_inv: "reachable namedEval b \<Longrightarrow> brokerInv b"
  by (induction rule: reachable.induct) (auto intro: inv_start step_inv)

lemma ready_enqueueLocked_mono:
  "x \<in> set (lookupList (ready b) q') \<Longrightarrow> x \<in> set (lookupList (ready (enqueueLocked b e q)) q')"
  by (auto simp: enqueueLocked_def Let_def)

lemma ready_processEnqueue_mono:
  "x \<in> set (lookupList (ready b) q') \<Longrightarrow> x \<in> set (lookupList (ready (processEnqueue b e t)) q')"
  by (auto simp: processEnqueue_def Let_def processWaitingEnqueue_def ready_enqueueLocked_mono
      split: option.splits)

lemma enqueueLocked_own:
  assumes "enabled b" "ID e \<noteq> []"
    "jobEvals b (namespacedID e) = None \<or> jobEvals b (namespacedID e) = Some (ID e)"
  shows "e \<in> set (lookupList (ready (enqueueLocked b e q)) q)"
  using assms by (auto simp: enqueueLocked_def Let_def lookupStr_def)

lemma at_most_one_in_flight:
  assumes "brokerInv b"
  shows "\<forall>x \<in> readyOcc b K <+> unackOcc b K. \<forall>y \<in> readyOcc b K <+> unackOcc b K. x = y"
proof -
  have kd: "keyedByID b" and qd: "queuesDistinct b" and op: "onePlace b" and rp: "represented b"
    using assms by (simp_all add: brokerInv_def)
  have rep: "jobEvals b (namespacedID e) = Some (ID e)" if "held b e l" "inFlight l" for e l
    using rp that unfolding represented_def by blast
  have r: "held b (lookupList (ready b) q ! n) (InReady q)
       \<and> jobEvals b K = Some (ID (lookupList (ready b) q ! n))" if mem: "(q, n) \<in> readyOcc b K" for q n
  proof -
    have h: "held b (lookupList (ready b) q ! n) (InReady q)"
      using mem by (simp add: readyOcc_def)
    have k: "namespacedID (lookupList (ready b) q ! n) = K"
      using mem by (simp add: readyOcc_def)
    show ?thesis using h rep [OF h] k by simp
  qed
  have u: "\<exists>v. unack b i = Some v \<and> ID (Eval v) = i \<and> held b (Eval v) InUnack
       \<and> jobEvals b K = Some i" if mem: "i \<in> unackOcc b K" for i
  proof -
    obtain v where v: "unack b i = Some v" "namespacedID (Eval v) = K"
      using mem by (auto simp: unackOcc_def)
    have i: "ID (Eval v) = i" using kd v(1) by (simp add: keyedByID_def)
    then have h: "held b (Eval v) InUnack" using v(1) by simp
    have "jobEvals b K = Some i"
      using rep [OF h] i v(2) by simp
    then show ?thesis using v i h by blast
  qed
  have one: "l = l'" if "held b e l" "held b e' l'" "ID e = ID e'" for e l e' l'
    using op that unfolding onePlace_def by blast
  have rr: "p = p'" if mp: "p \<in> readyOcc b K" and mp': "p' \<in> readyOcc b K" for p p'
  proof -
    obtain q n q' n' where p: "p = (q, n)" "p' = (q', n')" by (cases p, cases p') auto
    note a = r [OF mp [unfolded p]] and a' = r [OF mp' [unfolded p]]
    have ids: "ID (lookupList (ready b) q ! n) = ID (lookupList (ready b) q' ! n')"
      using a a' by simp
    have "InReady q = InReady q'"
      using a a' ids by (intro one [of "lookupList (ready b) q ! n" _ "lookupList (ready b) q' ! n'"]) simp_all
    then have q: "q = q'" by simp
    have len: "n < length (lookupList (ready b) q)" "n' < length (lookupList (ready b) q)"
      using mp mp' unfolding p q by (simp_all add: readyOcc_def)
    have "distinct (map ID (lookupList (ready b) q))"
      using qd by (simp add: queuesDistinct_def)
    then have "n = n'"
      using ids len nth_eq_iff_index_eq [of "map ID (lookupList (ready b) q)" n n']
      unfolding q by simp
    then show ?thesis by (simp add: p q)
  qed
  have ru: False if mp: "p \<in> readyOcc b K" and mi: "i \<in> unackOcc b K" for p i
  proof -
    obtain q n where p: "p = (q, n)" by (cases p)
    obtain v :: unackEval
      where v: "ID (Eval v) = i" "held b (Eval v) InUnack" "jobEvals b K = Some i"
      using u [OF mi] by metis
    note a = r [OF mp [unfolded p]]
    have "ID (lookupList (ready b) q ! n) = ID (Eval v)"
      using a v by simp
    then have "InReady q = InUnack"
      using a v(2) by (intro one [of "lookupList (ready b) q ! n" _ "Eval v"]) simp_all
    then show False by simp
  qed
  have uu: "i = j" if mi: "i \<in> unackOcc b K" and mj: "j \<in> unackOcc b K" for i j
  proof -
    have "jobEvals b K = Some i" using u [OF mi] by blast
    moreover have "jobEvals b K = Some j" using u [OF mj] by blast
    ultimately show ?thesis by simp
  qed
  show ?thesis
  proof (intro ballI)
    fix x y
    assume "x \<in> readyOcc b K <+> unackOcc b K" "y \<in> readyOcc b K <+> unackOcc b K"
    then show "x = y"
      by (elim PlusE) (use rr ru uu in \<open>blast+\<close>)
  qed
qed

subsection \<open>The comparator, the back-off delay and the flush\<close>

text \<open>
  C5. The comparator of the ready queues: when both the job ids and the priorities of
  two evaluations differ, the one with the higher priority sorts first; when the job ids
  or the priorities coincide, the one with the smaller create index sorts first.
\<close>

theorem Less_priority_or_create_index:
  "(JobID (p ! i) \<noteq> JobID (p ! j) \<and> Priority (p ! i) \<noteq> Priority (p ! j)
      \<longrightarrow> (Less p i j \<longleftrightarrow> Priority (p ! i) > Priority (p ! j)))
   \<and> (JobID (p ! i) = JobID (p ! j) \<or> Priority (p ! i) = Priority (p ! j)
      \<longrightarrow> (Less p i j \<longleftrightarrow> CreateIndex (p ! i) < CreateIndex (p ! j)))"
  by (auto simp: Less_def)

theorem Less_priority_or_create_index_witness:
  "Less [exampleEval ''e1'' ''j1'' ''A'' 50 2, exampleEval ''e2'' ''j2'' ''A'' 10 1] 0 1
   \<and> \<not> Less [exampleEval ''e1'' ''j1'' ''A'' 50 2, exampleEval ''e2'' ''j1'' ''A'' 10 1] 0 1"
  using Less_priority_or_create_index
          [of "[exampleEval ''e1'' ''j1'' ''A'' 50 2, exampleEval ''e2'' ''j2'' ''A'' 10 1]" 0 1]
        Less_priority_or_create_index
          [of "[exampleEval ''e1'' ''j1'' ''A'' 50 2, exampleEval ''e2'' ''j1'' ''A'' 10 1]" 0 1]
  by (simp add: exampleEval_def)

text \<open>
  C7. The delay before a nacked evaluation is enqueued again, after n earlier dequeues:
  none for n at most 0, the initial delay for n = 1, and (n - 1) times the subsequent
  delay from n = 2 on. The product is a 64-bit duration: it is the exact product
  whenever that fits.
\<close>

theorem nackReenqueueDelay_formula:
  "(n \<le> 0 \<longrightarrow> nackReenqueueDelay b e n = 0)
   \<and> (n = 1 \<longrightarrow> nackReenqueueDelay b e n = initialNackDelay b)
   \<and> (n \<ge> 2 \<longrightarrow> nackReenqueueDelay b e n = wrap64 ((n - 1) * subsequentNackDelay b))
   \<and> (n \<ge> 2 \<and> - (2 ^ 63) \<le> (n - 1) * subsequentNackDelay b
         \<and> (n - 1) * subsequentNackDelay b < 2 ^ 63
       \<longrightarrow> nackReenqueueDelay b e n = (n - 1) * subsequentNackDelay b)"
proof -
  have fits: "wrap64 x = x" if "- (2 ^ 63) \<le> x" "x < 2 ^ 63" for x :: int
  proof -
    have "(x + 2 ^ 63) mod 2 ^ 64 = x + 2 ^ 63"
      using that by (intro mod_pos_pos_trivial) auto
    then show ?thesis by (simp add: wrap64_def)
  qed
  show ?thesis
    by (auto simp: nackReenqueueDelay_def fits)
qed

theorem nackReenqueueDelay_formula_witness:
  "nackReenqueueDelay (newBroker 5 10 20 3) (exampleEval ''e1'' ''j1'' ''A'' 50 1) 0 = 0
   \<and> nackReenqueueDelay (newBroker 5 10 20 3) (exampleEval ''e1'' ''j1'' ''A'' 50 1) 1 = 10
   \<and> nackReenqueueDelay (newBroker 5 10 20 3) (exampleEval ''e1'' ''j1'' ''A'' 50 1) 2 = 20
   \<and> nackReenqueueDelay (newBroker 5 10 20 3) (exampleEval ''e1'' ''j1'' ''A'' 50 1) 4 = 60"
  using nackReenqueueDelay_formula
          [of 0 "newBroker 5 10 20 3" "exampleEval ''e1'' ''j1'' ''A'' 50 1"]
        nackReenqueueDelay_formula
          [of 1 "newBroker 5 10 20 3" "exampleEval ''e1'' ''j1'' ''A'' 50 1"]
        nackReenqueueDelay_formula
          [of 2 "newBroker 5 10 20 3" "exampleEval ''e1'' ''j1'' ''A'' 50 1"]
        nackReenqueueDelay_formula
          [of 4 "newBroker 5 10 20 3" "exampleEval ''e1'' ''j1'' ''A'' 50 1"]
  by (simp add: newBroker_def)

text \<open>
  C8. Disabling the broker, from any state, leaves the counter table, the job
  representatives, the blocked and ready queues, the unack table, the wait channels,
  the time-wait set and the delay heap empty, and the statistics all zero with no
  per-class entry.
\<close>

theorem SetEnabled_False_flushes:
  "evals (SetEnabled b False) = Map.empty
   \<and> jobEvals (SetEnabled b False) = Map.empty
   \<and> blocked (SetEnabled b False) = Map.empty
   \<and> ready (SetEnabled b False) = Map.empty
   \<and> unack (SetEnabled b False) = Map.empty
   \<and> waiting (SetEnabled b False) = Map.empty
   \<and> timeWait (SetEnabled b False) = Map.empty
   \<and> delayHeap (SetEnabled b False) = []
   \<and> \<not> enabled (SetEnabled b False)
   \<and> Stats (SetEnabled b False) = emptyStats"
  by (simp add: SetEnabled_def flush_def Stats_def emptyStats_def Let_def)

subsection \<open>Ack after the nack timer\<close>

text \<open>
  C6. Ack of an outstanding evaluation with its token fails with the error of an Ack
  after the nack timer exactly when stopping the nack timer reports false; the broker
  is then as before, except that the requeue entry of the token is gone.
\<close>

theorem Ack_after_nack_timer:
  assumes "unack b evalID = Some un" and "Token un = token"
  shows "((\<exists>b'. Ack b evalID token = Return (Some ErrAckAfterNack, b'))
            \<longleftrightarrow> \<not> fst (timerStop (NackTimer un)))
         \<and> (\<not> fst (timerStop (NackTimer un)) \<longrightarrow>
              Ack b evalID token
                = Return (Some ErrAckAfterNack, b\<lparr>requeue := (requeue b)(token := None)\<rparr>))"
  using assms
  by (auto simp: Ack_def deleteRequeue_def Let_def split: option.splits outcome.splits)

theorem Ack_after_nack_timer_witness:
  "unack (nackTimerExpire deliveredOnce ''e1'') ''e1''
     = Some \<lparr>Eval = exampleEval ''e1'' ''j1'' ''service'' 50 1, Token = ''t1'',
              NackTimer = Fired\<rparr>
   \<and> (\<exists>b'. Ack (nackTimerExpire deliveredOnce ''e1'') ''e1'' ''t1''
               = Return (Some ErrAckAfterNack, b'))"
proof -
  have u: "unack (nackTimerExpire deliveredOnce ''e1'') ''e1''
     = Some \<lparr>Eval = exampleEval ''e1'' ''j1'' ''service'' 50 1, Token = ''t1'',
              NackTimer = Fired\<rparr>"
    by code_simp
  show ?thesis
    using Ack_after_nack_timer [OF u, of "''t1''"] u
    by (simp add: timerStop_def)
qed

subsection \<open>Where the code leaves its own description\<close>

text \<open>
  C1. \<open>Peek\<close> is documented as the element that would be popped next, and the scan
  compares the peeks of the requested classes. It reads the last slot of the slice,
  while \<open>heap.Pop\<close> hands out the root. With priorities 50 and 10 queued on class A and
  30 on class B, the peek of A has priority 10, the pop of A would return priority 50,
  and a scan over A and B delivers the evaluation of priority 30.
\<close>

theorem Peek_differs_from_heapPop:
  "map_option Priority (Peek (lookupList (ready threeReady) ''A'')) = Some 10
   \<and> map_option (Priority \<circ> fst) (heapPop (lookupList (ready threeReady) ''A'')) = Some 50
   \<and> map_option (Priority \<circ> fst) (heapPop (lookupList (ready threeReady) ''B'')) = Some 30
   \<and> map_option Priority (scanned (scanForSchedulers threeReady [''A'', ''B''] ''t1'' 0))
       = Some 30"
  by code_simp

text \<open>
  C9. Under a delivery limit of 0, an evaluation delivered once has an attempt counter
  of 1, above the limit, so Ack charges the failed class; that class has no statistics
  entry, and Ack dereferences the missing entry.
\<close>

theorem Ack_first_delivery_limit_zero:
  "unack deliveredOnce ''e1'' \<noteq> None
   \<and> lookupInt (evals deliveredOnce) ''e1'' = 1
   \<and> deliveryLimit deliveredOnce = 0
   \<and> ByScheduler (stats deliveredOnce) failedQueue = None
   \<and> panics (Ack deliveredOnce ''e1'' ''t1'')"
  by code_simp

text \<open>
  C10. Nack charges the class of the evaluation also when the delivery came from the
  failed class: after that Nack the count of unacknowledged deliveries of class service
  is -1, and the one of the failed class stays 1.
\<close>

theorem Nack_from_failed_class_stats:
  "map_option Unacked (ByScheduler (stats
      (afterCall deliveredFromFailed (Nack deliveredFromFailed ''e1'' ''t2''))) ''service'')
     = Some (- 1)
   \<and> map_option Unacked (ByScheduler (stats
      (afterCall deliveredFromFailed (Nack deliveredFromFailed ''e1'' ''t2''))) failedQueue)
     = Some 1
   \<and> \<not> panics (Nack deliveredFromFailed ''e1'' ''t2'')"
  by code_simp

subsection \<open>Reachable example states\<close>

lemma enqueueLocked_fields [simp]:
  "enabled (enqueueLocked b e q) = enabled b" "evals (enqueueLocked b e q) = evals b"
  "unack (enqueueLocked b e q) = unack b" "timeWait (enqueueLocked b e q) = timeWait b"
  "requeue (enqueueLocked b e q) = requeue b" "delayHeap (enqueueLocked b e q) = delayHeap b"
  "deliveryLimit (enqueueLocked b e q) = deliveryLimit b"
  by (simp_all add: enqueueLocked_def Let_def)

lemma succeeded_afterCall: "succeeded r \<Longrightarrow> r = Return (None, afterCall d r)"
  by (auto simp: succeeded_def afterCall_def split: outcome.splits option.splits)

lemma reachable_startedBroker: "reachable P (startedBroker limit)"
  unfolding startedBroker_def
  by (rule reachable.start [of 5 0 0 limit]) (simp add: NewEvalBroker_def)

lemma reachable_Enqueue: "reachable P b \<Longrightarrow> P e \<Longrightarrow> reachable P (Enqueue b e)"
  unfolding Enqueue_def by (erule reachable.after) (rule step.enqueue)

lemma reachable_afterScan:
  assumes "reachable P b" "token \<noteq> []" "\<forall>i u. unack b i = Some u \<longrightarrow> Token u \<noteq> token"
  shows "reachable P (afterScan b (scanForSchedulers b schedulers token rnd))"
proof (cases "scanForSchedulers b schedulers token rnd")
  case Panic
  then show ?thesis using assms(1) by (simp add: afterScan_def)
next
  case (Return x)
  show ?thesis
  proof (cases x)
    case (Inl a)
    then show ?thesis using Return assms(1) by (simp add: afterScan_def)
  next
    case (Inr p)
    obtain r b' where p: "p = (r, b')" by (cases p)
    have "step P b (Scanned schedulers token rnd) b'"
      using step.dequeue [OF assms(2,3)] Return Inr p by simp
    then have "reachable P b'" using assms(1) by (rule reachable.after [rotated])
    then show ?thesis using Return Inr p by (simp add: afterScan_def)
  qed
qed

lemma unack_processEnqueue [simp]: "unack (processEnqueue b e t) = unack b"
  by (auto simp: processEnqueue_def Let_def processWaitingEnqueue_def split: option.splits)

lemma unack_startedBroker [simp]: "unack (startedBroker limit) = Map.empty"
  by (simp add: startedBroker_def SetEnabled_def newBroker_def)

lemma reachable_delivered: "reachable namedEval (delivered limit)"
  unfolding delivered_def Let_def
  by (intro reachable_afterScan reachable_Enqueue reachable_startedBroker)
     (simp_all add: Enqueue_def exampleEval_def namedEval_def)

lemma reachable_twoOfOneJob: "reachable namedEval twoOfOneJob"
  unfolding twoOfOneJob_def Let_def
  by (intro reachable_afterScan reachable_Enqueue reachable_startedBroker)
     (simp_all add: Enqueue_def exampleEval_def namedEval_def)

lemma reachable_afterCall_Nack:
  assumes "reachable P b"
  shows "reachable P (afterCall b (Nack b i t))"
proof (cases "Nack b i t")
  case Panic
  then show ?thesis using assms by (simp add: afterCall_def)
next
  case (Return x)
  obtain r b' where x: "x = (r, b')" by (cases x)
  have "step P b (Nacked i t) b'" using Return x by (intro step.nack) simp
  then have "reachable P b'" using assms by (rule reachable.after [rotated])
  then show ?thesis using Return x by (simp add: afterCall_def)
qed

lemma reachable_parkedAfterNack: "reachable namedEval parkedAfterNack"
proof -
  have "reachable namedEval (SetEnabled (newBroker 5 10 20 3) True)"
    by (rule reachable.start [of 5 10 20 3]) (simp add: NewEvalBroker_def)
  then show ?thesis
    unfolding parkedAfterNack_def Let_def
    by (intro reachable_afterCall_Nack reachable_afterScan reachable_Enqueue)
       (simp_all add: Enqueue_def exampleEval_def SetEnabled_def newBroker_def namedEval_def)
qed

subsection \<open>The requeue table\<close>

lemma enqueueLocked_placed:
  "enabled b \<Longrightarrow> e \<in> set (lookupList (ready (enqueueLocked b e q)) q)
     \<or> e \<in> set (lookupList (blocked (enqueueLocked b e q)) (namespacedID e))"
  by (simp add: enqueueLocked_def Let_def)

lemma processEnqueue_fresh:
  assumes "enabled b" "evals b (ID e) = None"
  shows "evals (processEnqueue b e t) (ID e) = Some 0" and "placed (processEnqueue b e t) e"
proof -
  let ?b = "b\<lparr>evals := (evals b)(ID e \<mapsto> 0)\<rparr>"
  have en: "enabled ?b" using assms(1) by simp
  show "evals (processEnqueue b e t) (ID e) = Some 0"
    using assms by (simp add: processEnqueue_def Let_def processWaitingEnqueue_def)
  show "placed (processEnqueue b e t) e"
    using assms enqueueLocked_placed [OF en, of e "Type e"]
    by (simp add: processEnqueue_def Let_def processWaitingEnqueue_def placed_def
        delayHeapPush_def)
qed

lemma promoteBlocked_fields:
  assumes "promoteBlocked b k = Return b2"
  shows "enabled b2 = enabled b" "evals b2 = evals b" "requeue b2 = requeue b"
  using assms by (auto simp: promoteBlocked_def Let_def split: if_splits option.splits)

lemma Ack_success:
  assumes "Ack b i t = Return (None, b')"
  obtains un bySched b2 where "unack b i = Some un" "Token un = t"
    "promoteBlocked (b\<lparr>stats := (stats b)\<lparr>TotalUnacked := TotalUnacked (stats b) - 1,
         ByScheduler := (ByScheduler (stats b))
           ((if lookupInt (evals b) i > deliveryLimit b then failedQueue else Type (Eval un))
              \<mapsto> bySched\<lparr>Unacked := Unacked bySched - 1\<rparr>)\<rparr>,
       unack := (unack b)(i := None), evals := (evals b)(i := None),
       jobEvals := (jobEvals b)(namespacedID (Eval un) := None)\<rparr>) (namespacedID (Eval un))
       = Return b2"
    "b' = deleteRequeue (case requeue b2 t of None \<Rightarrow> b2
                        | Some eval \<Rightarrow> processEnqueue b2 eval []) t"
  using assms unfolding Ack_def
  by (auto simp: Let_def split: option.splits if_splits outcome.splits)

lemma Ack_clears_requeue: "Ack b i t = Return (r, b') \<Longrightarrow> requeue b' t = None"
  unfolding Ack_def
  by (auto simp: Let_def deleteRequeue_def split: option.splits if_splits outcome.splits)

lemma Nack_clears_requeue: "Nack b i t = Return (r, b') \<Longrightarrow> requeue b' t = None"
  unfolding Nack_def
  by (auto simp: Let_def deleteRequeue_def processWaitingEnqueue_def
      split: option.splits if_splits)

subsection \<open>Admission by job\<close>

lemma blocked_when_job_in_flight:
  assumes inv: "brokerInv b" and h: "held b e0 l" "inFlight l"
    and k: "namespacedID e0 = namespacedID e" and d: "ID e0 \<noteq> ID e"
  shows "enqueueLocked b e q = pushBlocked b e"
    and "e \<in> set (lookupList (blocked (enqueueLocked b e q)) (namespacedID e))"
proof -
  have "jobEvals b (namespacedID e0) = Some (ID e0)"
    using inv h unfolding brokerInv_def represented_def by blast
  moreover have "ID e0 \<noteq> []" using inv h(1) unfolding brokerInv_def counted_def by blast
  moreover have "enabled b" using inv by (simp add: brokerInv_def)
  ultimately show eq: "enqueueLocked b e q = pushBlocked b e"
    using k d by (simp add: enqueueLocked_def lookupStr_def)
  show "e \<in> set (lookupList (blocked (enqueueLocked b e q)) (namespacedID e))"
    unfolding eq by simp
qed

lemma Ack_promotes:
  assumes inv: "brokerInv b" and a: "Ack b i t = Return (None, b')"
    and u: "unack b i = Some un"
    and pop: "heapPop (lookupList (blocked b) (namespacedID (Eval un))) = Some (x, rest)"
  shows "x \<in> set (lookupList (ready b') (Type x))"
proof -
  let ?k = "namespacedID (Eval un)"
  from a obtain u' :: unackEval and bySched :: SchedulerStats and b2 :: EvalBroker where
    u': "unack b i = Some u'"
    and p: "promoteBlocked (b\<lparr>stats := (stats b)\<lparr>TotalUnacked := TotalUnacked (stats b) - 1,
         ByScheduler := (ByScheduler (stats b))
           ((if lookupInt (evals b) i > deliveryLimit b then failedQueue else Type (Eval u'))
              \<mapsto> bySched\<lparr>Unacked := Unacked bySched - 1\<rparr>)\<rparr>,
       unack := (unack b)(i := None), evals := (evals b)(i := None),
       jobEvals := (jobEvals b)(namespacedID (Eval u') := None)\<rparr>) (namespacedID (Eval u'))
       = Return b2"
    and b': "b' = deleteRequeue (case requeue b2 t of None \<Rightarrow> b2
                        | Some eval \<Rightarrow> processEnqueue b2 eval []) t"
    by (rule Ack_success)
  have [simp]: "u' = un" using u u' by simp
  have en: "enabled b" using inv by (simp add: brokerInv_def)
  have hx: "held b x (InBlocked ?k)"
    using pop heapPop_distinct(3) [OF pop] inv by (simp add: brokerInv_def queuesDistinct_def)
  have kx: "namespacedID x = ?k"
    using inv hx unfolding brokerInv_def blockedByJob_def by blast
  have idx: "ID x \<noteq> []" using inv hx unfolding brokerInv_def counted_def by blast
  have ne: "lookupList (blocked b) ?k \<noteq> []" using pop by (auto simp: heapPop_def split: if_splits)
  have "x \<in> set (lookupList (ready b2) (Type x))"
    using p pop ne en
    by (auto simp: promoteBlocked_def Let_def intro!: enqueueLocked_own simp: kx idx)
  then have "x \<in> set (lookupList (ready (case requeue b2 t of None \<Rightarrow> b2
                        | Some eval \<Rightarrow> processEnqueue b2 eval [])) (Type x))"
    by (auto split: option.splits intro: ready_processEnqueue_mono)
  then show ?thesis by (simp add: b' deleteRequeue_def)
qed

subsection \<open>Where Nack puts an evaluation\<close>

lemma Nack_routes:
  assumes inv: "brokerInv b" and a: "Nack b i t = Return (None, b')"
  shows "\<exists>un. unack b i = Some un \<and> Token un = t
     \<and> (lookupInt (evals b) i \<ge> deliveryLimit b
          \<longrightarrow> Eval un \<in> set (lookupList (ready b') failedQueue))
     \<and> (lookupInt (evals b) i < deliveryLimit b \<longrightarrow>
          (0 < nackReenqueueDelay b (Eval un) (lookupInt (evals b) i)
             \<longrightarrow> timeWait b' i
                   = Some ((Eval un)\<lparr>Wait := nackReenqueueDelay b (Eval un) (lookupInt (evals b) i)\<rparr>))
          \<and> (nackReenqueueDelay b (Eval un) (lookupInt (evals b) i) \<le> 0
             \<longrightarrow> (Eval un)\<lparr>Wait := nackReenqueueDelay b (Eval un) (lookupInt (evals b) i)\<rparr>
                   \<in> set (lookupList (ready b') (Type (Eval un)))))"
proof -
  from a obtain un :: unackEval where un: "unack b i = Some un" "Token un = t"
    by (auto simp: Nack_def Let_def deleteRequeue_def split: option.splits if_splits)
  from a un obtain bySched :: SchedulerStats
    where bs: "ByScheduler (stats b) (Type (Eval un)) = Some bySched"
    by (auto simp: Nack_def Let_def deleteRequeue_def split: option.splits)
  define b1 where "b1 = b\<lparr>requeue := (requeue b)(t := None), unack := (unack b)(i := None),
                           stats := (stats b)\<lparr>TotalUnacked := TotalUnacked (stats b) - 1,
                             ByScheduler := (ByScheduler (stats b))(Type (Eval un) \<mapsto>
                                bySched\<lparr>Unacked := Unacked bySched - 1\<rparr>)\<rparr>\<rparr>"
  define d where "d = nackReenqueueDelay b (Eval un) (lookupInt (evals b) i)"
  define e where "e = (Eval un)\<lparr>Wait := d\<rparr>"
  have d1: "nackReenqueueDelay b1 (Eval un) (lookupInt (evals b1) i) = d"
    by (simp add: d_def b1_def nackReenqueueDelay_def)
  have res: "b' = (if lookupInt (evals b) i \<ge> deliveryLimit b
                   then enqueueLocked b1 (Eval un) failedQueue
                   else if d > 0 then processWaitingEnqueue b1 e
                   else enqueueLocked b1 e (Type (Eval un)))"
    using a un bs d1 unfolding Nack_def Let_def deleteRequeue_def e_def
    by (auto simp: b1_def split: if_splits)
  have i: "ID (Eval un) = i" using inv un(1) by (auto simp: brokerInv_def keyedByID_def)
  then have h: "held b (Eval un) InUnack" using un(1) by simp
  have rep: "jobEvals b1 (namespacedID (Eval un)) = Some (ID (Eval un))"
    using inv h unfolding brokerInv_def represented_def b1_def by (simp; metis inFlight.simps(2))
  have ne: "ID (Eval un) \<noteq> []" using inv h unfolding brokerInv_def counted_def by blast
  have en: "enabled b1" using inv by (simp add: brokerInv_def b1_def)
  have ee: "ID e = ID (Eval un)" "namespacedID e = namespacedID (Eval un)" "Type e = Type (Eval un)"
    by (simp_all add: e_def namespacedID_def)
  have f: "Eval un \<in> set (lookupList (ready (enqueueLocked b1 (Eval un) failedQueue)) failedQueue)"
    using en ne rep by (intro enqueueLocked_own) simp_all
  have r: "e \<in> set (lookupList (ready (enqueueLocked b1 e (Type (Eval un)))) (Type (Eval un)))"
    using en ne rep ee by (intro enqueueLocked_own) simp_all
  have w: "timeWait (processWaitingEnqueue b1 e) i = Some e"
    using i ee by (simp add: processWaitingEnqueue_def)
  show ?thesis
    using un f r w unfolding res e_def d_def by auto
qed

lemma parked_returns_to_own_class:
  assumes inv: "brokerInv b" and w: "timeWait b (ID e) = Some e"
    and c: "0 < lookupInt (evals b) (ID e)"
  shows "e \<in> set (lookupList (ready (enqueueWaiting b e)) (Type e))"
proof -
  have h: "held b e InTimeWait" using w by simp
  have "jobEvals b (namespacedID e) = Some (ID e)"
    using inv h c unfolding brokerInv_def represented_def by blast
  moreover have "ID e \<noteq> []" using inv h unfolding brokerInv_def counted_def by blast
  moreover have "enabled b" using inv by (simp add: brokerInv_def)
  ultimately show ?thesis
    unfolding enqueueWaiting_def by (intro enqueueLocked_own) simp_all
qed

subsection \<open>Every outstanding delivery can be nacked\<close>

lemma deliveryInv_cong:
  assumes "enabled b' = enabled b" "unack b' = unack b" "evals b' = evals b"
    "ready b' = ready b" "ByScheduler (stats b') = ByScheduler (stats b)"
  shows "deliveryInv b' = deliveryInv b"
  unfolding deliveryInv_def tokensUnique_def classKnown_def counterKnown_def assms by simp

lemma classKnown_pushReady [simp]:
  "classKnown (pushReady b e q) q' \<longleftrightarrow> q' = q \<or> classKnown b q'"
  by (auto simp: pushReady_def Let_def classKnown_def)

lemma counterKnown_pushReady [simp]: "counterKnown (pushReady b e q) = counterKnown b"
  by (simp add: counterKnown_def fun_eq_iff)

lemma dInv_pushReady:
  assumes "deliveryInv b" "q = Type e \<or> classKnown b (Type e)"
  shows "deliveryInv (pushReady b e q)"
  using assms unfolding deliveryInv_def tokensUnique_def by auto

lemma dInv_pushBlocked: "deliveryInv b \<Longrightarrow> deliveryInv (pushBlocked b e)"
proof -
  have "deliveryInv (pushBlocked b e) = deliveryInv b"
    by (rule deliveryInv_cong) (simp_all add: pushBlocked_def)
  then show "deliveryInv b \<Longrightarrow> deliveryInv (pushBlocked b e)" by simp
qed

lemma dInv_enqueueLocked:
  assumes "deliveryInv b" "q = Type e \<or> classKnown b (Type e)"
  shows "deliveryInv (enqueueLocked b e q)"
proof -
  let ?b = "b\<lparr>jobEvals := (jobEvals b)(namespacedID e \<mapsto> ID e)\<rparr>"
  have "deliveryInv ?b = deliveryInv b" by (rule deliveryInv_cong) simp_all
  moreover have "classKnown ?b = classKnown b" by (simp add: classKnown_def fun_eq_iff)
  ultimately have "deliveryInv (pushReady ?b e q)"
    using assms by (intro dInv_pushReady) simp_all
  then show ?thesis
    using dInv_pushReady [OF assms] dInv_pushBlocked [OF assms(1)] assms(1)
    by (simp add: enqueueLocked_def Let_def)
qed

lemma dInv_processWaitingEnqueue: "deliveryInv b \<Longrightarrow> deliveryInv (processWaitingEnqueue b e)"
proof -
  have "deliveryInv (processWaitingEnqueue b e) = deliveryInv b"
    by (rule deliveryInv_cong) (simp_all add: processWaitingEnqueue_def)
  then show "deliveryInv b \<Longrightarrow> deliveryInv (processWaitingEnqueue b e)" by simp
qed

lemma dInv_processEnqueue:
  assumes "deliveryInv b"
  shows "deliveryInv (processEnqueue b e t)"
proof -
  let ?b = "b\<lparr>evals := (evals b)(ID e \<mapsto> 0)\<rparr>"
  let ?d = "?b\<lparr>delayHeap := delayHeapPush (delayHeap ?b) e,
      stats := (stats ?b)\<lparr>TotalWaiting := TotalWaiting (stats ?b) + 1\<rparr>,
      delayedEvalsUpdateCh := True\<rparr>"
  let ?r = "b\<lparr>requeue := (requeue b)(t \<mapsto> e)\<rparr>"
  have "counterKnown ?b i" if "counterKnown b i" for i
    using that by (simp add: counterKnown_def)
  moreover have "classKnown ?b = classKnown b" by (simp add: classKnown_def fun_eq_iff)
  ultimately have n: "deliveryInv ?b"
    using assms unfolding deliveryInv_def tokensUnique_def by simp
  have "deliveryInv ?r = deliveryInv b" by (rule deliveryInv_cong) simp_all
  then have r: "deliveryInv ?r" using assms by simp
  have w: "deliveryInv (processWaitingEnqueue ?b e)"
    using n by (rule dInv_processWaitingEnqueue)
  have "deliveryInv ?d = deliveryInv ?b" by (rule deliveryInv_cong) simp_all
  then have d: "deliveryInv ?d" using n by simp
  have l: "deliveryInv (enqueueLocked ?b e (Type e))"
    using n by (intro dInv_enqueueLocked) simp_all
  show ?thesis
    using assms r w d l by (simp add: processEnqueue_def Let_def split: option.splits)
qed

lemma dInv_deleteRequeue: "deliveryInv b \<Longrightarrow> deliveryInv (deleteRequeue b t)"
proof -
  have "deliveryInv (deleteRequeue b t) = deliveryInv b"
    by (rule deliveryInv_cong) (simp_all add: deleteRequeue_def)
  then show "deliveryInv b \<Longrightarrow> deliveryInv (deleteRequeue b t)" by simp
qed

lemma dequeueForSched_result:
  assumes "dequeueForSched b sched token = Return ((e, tk), b')"
  obtains pending bySched where
    "heapPop (lookupList (ready b) sched) = Some (e, pending)"
    "ByScheduler (stats b) sched = Some bySched"
    "tk = token"
    "b' = b\<lparr>ready := (ready b)(sched \<mapsto> pending),
            unack := (unack b)(ID e \<mapsto> \<lparr>Eval = e, Token = token, NackTimer = Running\<rparr>),
            evals := (evals b)(ID e \<mapsto> lookupInt (evals b) (ID e) + 1),
            stats := (stats b)\<lparr>TotalReady := TotalReady (stats b) - 1,
               TotalUnacked := TotalUnacked (stats b) + 1,
               ByScheduler := (ByScheduler (stats b))(sched \<mapsto>
                  bySched\<lparr>Ready := Ready bySched - 1, Unacked := Unacked bySched + 1\<rparr>)\<rparr>\<rparr>"
  using assms by (auto simp: dequeueForSched_def split: option.splits prod.splits)

lemma scan_result:
  assumes "scanForSchedulers b schedulers token rnd = Return (Inr (r, b'))"
  shows "(r = None \<and> b' = b)
     \<or> (\<exists>e sched. r = Some (e, token) \<and> dequeueForSched b sched token = Return ((e, token), b'))"
proof -
  define es where "es = fst (scanLoop b schedulers ([], 0))"
  define sched where "sched = (if length es = 1 then es ! 0 else es ! (rnd mod length es))"
  have en: "enabled b" using assms by (auto simp: scanForSchedulers_def split: if_splits)
  show ?thesis
  proof (cases "length es = 0")
    case True
    then show ?thesis using assms en by (simp add: scanForSchedulers_def es_def)
  next
    case False
    then have eq: "scanForSchedulers b schedulers token rnd
        = (case dequeueForSched b sched token of Panic \<Rightarrow> Panic
           | Return (x, b'') \<Rightarrow> Return (Inr (Some x, b'')))"
      using en unfolding scanForSchedulers_def Let_def es_def [symmetric] sched_def by simp
    show ?thesis
    proof (cases "dequeueForSched b sched token")
      case Panic
      then show ?thesis using assms eq by simp
    next
      case (Return y)
      obtain e tk b'' where y: "y = ((e, tk), b'')" by (cases y) auto
      have "tk = token"
        using Return y by (auto simp: dequeueForSched_def split: option.splits prod.splits)
      then show ?thesis using assms eq Return y by auto
    qed
  qed
qed

lemma heapPop_set: "heapPop h = Some (x, rest) \<Longrightarrow> set h = insert x (set rest)"
  by (drule mset_heapPop) (metis set_mset_add_mset_insert set_mset_mset)

lemma dInv_dequeueForSched:
  assumes inv: "deliveryInv b"
    and tok: "token \<noteq> []" "\<forall>i u. unack b i = Some u \<longrightarrow> Token u \<noteq> token"
    and d: "dequeueForSched b sched token = Return ((e, tk), b')"
  shows "deliveryInv b'"
proof -
  from d obtain pending bySched where
    pop: "heapPop (lookupList (ready b) sched) = Some (e, pending)"
    and b': "b' = b\<lparr>ready := (ready b)(sched \<mapsto> pending),
            unack := (unack b)(ID e \<mapsto> \<lparr>Eval = e, Token = token, NackTimer = Running\<rparr>),
            evals := (evals b)(ID e \<mapsto> lookupInt (evals b) (ID e) + 1),
            stats := (stats b)\<lparr>TotalReady := TotalReady (stats b) - 1,
               TotalUnacked := TotalUnacked (stats b) + 1,
               ByScheduler := (ByScheduler (stats b))(sched \<mapsto>
                  bySched\<lparr>Ready := Ready bySched - 1, Unacked := Unacked bySched + 1\<rparr>)\<rparr>\<rparr>"
    by (rule dequeueForSched_result)
  note s = heapPop_set [OF pop]
  have cov: "classKnown b (Type x)" if "x \<in> set (lookupList (ready b) q)" for x q
    using inv that unfolding deliveryInv_def by blast
  have r: "x \<in> set (lookupList (ready b) q)" if "x \<in> set (lookupList (ready b') q)" for x q
    using that s by (auto simp: b' lookupList_def split: if_splits)
  have e: "e \<in> set (lookupList (ready b) sched)" using s by simp
  have "tokensUnique b'"
    using inv tok unfolding deliveryInv_def tokensUnique_def b' by (auto split: if_splits)
  moreover have known: "classKnown b' q" if "classKnown b q" for q
    using that by (simp add: classKnown_def b')
  moreover have "counterKnown b' i \<and> classKnown b' (Type (Eval u))"
    if u: "unack b' i = Some u" for i u
  proof (cases "i = ID e")
    case True
    then have "Eval u = e" using u by (auto simp: b')
    moreover have "counterKnown b' (ID e)" by (simp add: b' counterKnown_def)
    ultimately show ?thesis using True known [OF cov [OF e]] by simp
  next
    case False
    then have "unack b i = Some u" using u by (simp add: b')
    then have "counterKnown b i \<and> classKnown b (Type (Eval u))"
      using inv unfolding deliveryInv_def by blast
    moreover have "counterKnown b' i" if "counterKnown b i"
      using that by (simp add: b' counterKnown_def)
    ultimately show ?thesis using known by blast
  qed
  moreover have "classKnown b' (Type x)"
    if "x \<in> set (lookupList (ready b') q)" for x q
    using known [OF cov [OF r [OF that]]] .
  moreover have "enabled b'" using inv by (simp add: deliveryInv_def b')
  ultimately show ?thesis unfolding deliveryInv_def by blast
qed

lemma dInv_scanForSchedulers:
  assumes "deliveryInv b" "token \<noteq> []" "\<forall>i u. unack b i = Some u \<longrightarrow> Token u \<noteq> token"
    and "scanForSchedulers b schedulers token rnd = Return (Inr (r, b'))"
  shows "deliveryInv b'"
  using scan_result [OF assms(4)] assms(1) dInv_dequeueForSched [OF assms(1-3)] by blast

lemma dInv_promoteBlocked:
  assumes inv: "deliveryInv b" and p: "promoteBlocked b k = Return b2"
  shows "deliveryInv b2"
proof (cases "length (lookupList (blocked b) k) \<noteq> 0")
  case False
  then show ?thesis using p inv by (simp add: promoteBlocked_def)
next
  case True
  then obtain e rest where pop: "heapPop (lookupList (blocked b) k) = Some (e, rest)"
    by (cases "heapPop (lookupList (blocked b) k)") (auto simp: heapPop_None)
  let ?b1 = "b\<lparr>blocked := (if length rest > 0 then (blocked b)(k \<mapsto> rest)
                               else (blocked b)(k := None)),
                  stats := (stats b)\<lparr>TotalBlocked := TotalBlocked (stats b) - 1\<rparr>\<rparr>"
  have b2: "b2 = enqueueLocked ?b1 e (Type e)"
    using p True pop by (simp add: promoteBlocked_def Let_def)
  have "deliveryInv ?b1 = deliveryInv b" by (rule deliveryInv_cong) simp_all
  then show ?thesis unfolding b2 using inv by (intro dInv_enqueueLocked) simp_all
qed

lemma dInv_Ack:
  assumes inv: "deliveryInv b" and a: "Ack b i t = Return (r, b')"
  shows "deliveryInv b'"
proof (cases r)
  case (Some err)
  then have "b' = deleteRequeue b t"
    using a by (auto simp: Ack_def Let_def split: option.splits if_splits outcome.splits)
  then show ?thesis using inv by (simp add: dInv_deleteRequeue)
next
  case None
  with a obtain un :: unackEval and bySched :: SchedulerStats and b2 :: EvalBroker where
    un: "unack b i = Some un"
    and p: "promoteBlocked (b\<lparr>stats := (stats b)\<lparr>TotalUnacked := TotalUnacked (stats b) - 1,
         ByScheduler := (ByScheduler (stats b))
           ((if lookupInt (evals b) i > deliveryLimit b then failedQueue else Type (Eval un))
              \<mapsto> bySched\<lparr>Unacked := Unacked bySched - 1\<rparr>)\<rparr>,
       unack := (unack b)(i := None), evals := (evals b)(i := None),
       jobEvals := (jobEvals b)(namespacedID (Eval un) := None)\<rparr>) (namespacedID (Eval un))
       = Return b2"
    and b': "b' = deleteRequeue (case requeue b2 t of None \<Rightarrow> b2
                        | Some eval \<Rightarrow> processEnqueue b2 eval []) t"
    by (auto elim: Ack_success)
  define b1 where "b1 = b\<lparr>stats := (stats b)\<lparr>TotalUnacked := TotalUnacked (stats b) - 1,
         ByScheduler := (ByScheduler (stats b))
           ((if lookupInt (evals b) i > deliveryLimit b then failedQueue else Type (Eval un))
              \<mapsto> bySched\<lparr>Unacked := Unacked bySched - 1\<rparr>)\<rparr>,
       unack := (unack b)(i := None), evals := (evals b)(i := None),
       jobEvals := (jobEvals b)(namespacedID (Eval un) := None)\<rparr>"
  have known: "classKnown b1 q" if "classKnown b q" for q
    using that by (simp add: classKnown_def b1_def)
  have rdy: "ready b1 = ready b" by (simp add: b1_def)
  have "tokensUnique b1"
    using inv unfolding deliveryInv_def tokensUnique_def b1_def by (auto split: if_splits)
  moreover have "counterKnown b1 j \<and> classKnown b1 (Type (Eval u))"
    if u: "unack b1 j = Some u" for j u
  proof -
    have j: "j \<noteq> i" "unack b j = Some u" using u by (auto simp: b1_def split: if_splits)
    then have "counterKnown b j \<and> classKnown b (Type (Eval u))"
      using inv unfolding deliveryInv_def by blast
    moreover have "counterKnown b1 j" if "counterKnown b j"
      using that j(1) by (simp add: b1_def counterKnown_def)
    ultimately show ?thesis using known by blast
  qed
  moreover have "classKnown b1 (Type x)" if "x \<in> set (lookupList (ready b1) q)" for x q
    using that inv known unfolding deliveryInv_def rdy by blast
  moreover have "enabled b1" using inv by (simp add: deliveryInv_def b1_def)
  ultimately have "deliveryInv b1" unfolding deliveryInv_def by blast
  then have "deliveryInv b2" using p unfolding b1_def [symmetric] by (rule dInv_promoteBlocked)
  then have "deliveryInv (case requeue b2 t of None \<Rightarrow> b2
                        | Some eval \<Rightarrow> processEnqueue b2 eval [])"
    by (auto split: option.splits intro: dInv_processEnqueue)
  then show ?thesis unfolding b' by (rule dInv_deleteRequeue)
qed

lemma Nack_result:
  assumes u: "unack b i = Some un" "Token un = t"
    and bs: "ByScheduler (stats b) (Type (Eval un)) = Some bySched"
  shows "Nack b i t = Return (None,
     (let b1 = b\<lparr>requeue := (requeue b)(t := None), unack := (unack b)(i := None),
                  stats := (stats b)\<lparr>TotalUnacked := TotalUnacked (stats b) - 1,
                     ByScheduler := (ByScheduler (stats b))(Type (Eval un) \<mapsto>
                        bySched\<lparr>Unacked := Unacked bySched - 1\<rparr>)\<rparr>\<rparr>;
          d = nackReenqueueDelay b (Eval un) (lookupInt (evals b) i);
          e = (Eval un)\<lparr>Wait := d\<rparr>
      in if lookupInt (evals b) i \<ge> deliveryLimit b
         then enqueueLocked b1 (Eval un) failedQueue
         else if d > 0 then processWaitingEnqueue b1 e
         else enqueueLocked b1 e (Type (Eval un))))"
  using u bs
  by (simp add: Nack_def Let_def deleteRequeue_def nackReenqueueDelay_def)

lemma Nack_failure:
  assumes "\<not> (\<exists>un. unack b i = Some un \<and> Token un = t)" "Nack b i t = Return (r, b')"
  shows "b' = deleteRequeue b t" and "r \<noteq> None"
  using assms by (auto simp: Nack_def Let_def deleteRequeue_def split: option.splits if_splits)

lemma dInv_Nack:
  assumes inv: "deliveryInv b" and a: "Nack b i t = Return (r, b')"
  shows "deliveryInv b'"
proof (cases "\<exists>un. unack b i = Some un \<and> Token un = t")
  case False
  then show ?thesis using Nack_failure(1) [OF False a] inv by (simp add: dInv_deleteRequeue)
next
  case True
  then obtain un :: unackEval where un: "unack b i = Some un" "Token un = t" by blast
  then have "classKnown b (Type (Eval un))" using inv unfolding deliveryInv_def by blast
  then obtain bySched where bs: "ByScheduler (stats b) (Type (Eval un)) = Some bySched"
    by (auto simp: classKnown_def)
  define b1 where "b1 = b\<lparr>requeue := (requeue b)(t := None), unack := (unack b)(i := None),
                  stats := (stats b)\<lparr>TotalUnacked := TotalUnacked (stats b) - 1,
                     ByScheduler := (ByScheduler (stats b))(Type (Eval un) \<mapsto>
                        bySched\<lparr>Unacked := Unacked bySched - 1\<rparr>)\<rparr>\<rparr>"
  define e where "e = (Eval un)\<lparr>Wait := nackReenqueueDelay b (Eval un) (lookupInt (evals b) i)\<rparr>"
  have b': "b' = (if lookupInt (evals b) i \<ge> deliveryLimit b
         then enqueueLocked b1 (Eval un) failedQueue
         else if Wait e > 0 then processWaitingEnqueue b1 e
         else enqueueLocked b1 e (Type e))"
    using a unfolding Nack_result [OF un bs] by (auto simp: Let_def b1_def e_def)
  have known: "classKnown b1 q" if "classKnown b q" for q
    using that by (simp add: classKnown_def b1_def)
  have own: "classKnown b1 (Type (Eval un))" by (simp add: classKnown_def b1_def)
  have rdy: "ready b1 = ready b" by (simp add: b1_def)
  have "tokensUnique b1"
    using inv unfolding deliveryInv_def tokensUnique_def b1_def by (auto split: if_splits)
  moreover have "counterKnown b1 j \<and> classKnown b1 (Type (Eval u))"
    if u: "unack b1 j = Some u" for j u
  proof -
    have j: "unack b j = Some u" using u by (auto simp: b1_def split: if_splits)
    then have "counterKnown b j \<and> classKnown b (Type (Eval u))"
      using inv unfolding deliveryInv_def by blast
    moreover have "counterKnown b1 j" if "counterKnown b j"
      using that by (simp add: b1_def counterKnown_def)
    ultimately show ?thesis using known by blast
  qed
  moreover have "classKnown b1 (Type x)" if "x \<in> set (lookupList (ready b1) q)" for x q
    using that inv known unfolding deliveryInv_def rdy by blast
  moreover have "enabled b1" using inv by (simp add: deliveryInv_def b1_def)
  ultimately have i1: "deliveryInv b1" unfolding deliveryInv_def by blast
  have "deliveryInv (enqueueLocked b1 (Eval un) failedQueue)"
    using i1 own by (intro dInv_enqueueLocked) simp_all
  moreover have "deliveryInv (processWaitingEnqueue b1 e)"
    using i1 by (rule dInv_processWaitingEnqueue)
  moreover have "deliveryInv (enqueueLocked b1 e (Type e))"
    using i1 by (intro dInv_enqueueLocked) simp_all
  ultimately show ?thesis unfolding b' by simp
qed

lemma dInv_timer:
  assumes inv: "deliveryInv b" and u: "unack b i = Some un"
  shows "deliveryInv (b\<lparr>unack := (unack b)(i \<mapsto> un\<lparr>NackTimer := tm\<rparr>)\<rparr>)"
proof -
  let ?b = "b\<lparr>unack := (unack b)(i \<mapsto> un\<lparr>NackTimer := tm\<rparr>)\<rparr>"
  have old: "\<exists>v'. unack b j = Some v' \<and> Token v' = Token v \<and> Eval v' = Eval v"
    if "unack ?b j = Some v" for j v
    using that u by (cases "j = i") auto
  have "j = k" if "unack ?b j = Some v" "unack ?b k = Some w" "Token v = Token w" for j k v w
    using old [OF that(1)] old [OF that(2)] that(3) inv
    unfolding deliveryInv_def tokensUnique_def by metis
  moreover have "Token v \<noteq> []" if "unack ?b j = Some v" for j v
    using old [OF that] inv unfolding deliveryInv_def tokensUnique_def by metis
  ultimately have "tokensUnique ?b" unfolding tokensUnique_def by blast
  moreover have "counterKnown ?b j \<and> classKnown ?b (Type (Eval v))"
    if new: "unack ?b j = Some v" for j v
  proof -
    obtain v' :: unackEval where "unack b j = Some v'" "Eval v' = Eval v"
      using old [OF new] by blast
    then have "counterKnown b j \<and> classKnown b (Type (Eval v))"
      using inv unfolding deliveryInv_def by metis
    then show ?thesis by (simp add: counterKnown_def classKnown_def)
  qed
  moreover have "classKnown ?b (Type x)" if "x \<in> set (lookupList (ready ?b) q)" for x q
    using that inv unfolding deliveryInv_def by (simp add: classKnown_def)
  moreover have "enabled ?b" using inv by (simp add: deliveryInv_def)
  ultimately show ?thesis unfolding deliveryInv_def by blast
qed

lemma dInv_timer_ops:
  assumes inv: "deliveryInv b"
  shows "deliveryInv (nackTimerExpire b i)"
    and "deliveryInv (snd (PauseNackTimeout b i t))"
    and "deliveryInv (snd (ResumeNackTimeout b i t))"
    and "deliveryInv (snd (OutstandingReset b i t))"
  using inv dInv_timer [OF inv]
  by (auto simp: nackTimerExpire_def PauseNackTimeout_def ResumeNackTimeout_def
      OutstandingReset_def Let_def split: option.splits)

lemma dInv_start:
  assumes "NewEvalBroker timeout initialDelay subsequentDelay limit = Inr b0"
  shows "deliveryInv (SetEnabled b0 True)"
proof -
  have b0: "b0 = newBroker timeout initialDelay subsequentDelay limit"
    using assms by (auto simp: NewEvalBroker_def split: if_splits)
  show ?thesis
    unfolding deliveryInv_def tokensUnique_def
    by (simp add: b0 SetEnabled_def newBroker_def lookupList_def)
qed

lemma dInv_step:
  assumes "deliveryInv b" and "step P b ev b'"
  shows "deliveryInv b'"
  using assms(2,1)
proof (induction rule: step.induct)
  case (enqueue eval b token)
  then show ?case by (simp add: dInv_processEnqueue)
next
  case (dequeue token b schedulers rnd r b')
  then show ?case using dInv_scanForSchedulers by blast
next
  case (ack b evalID token err b')
  then show ?case using dInv_Ack by blast
next
  case (nack b evalID token err b')
  then show ?case using dInv_Nack by blast
next
  case (waitOver b eval)
  let ?b1 = "b\<lparr>timeWait := (timeWait b)(ID eval := None),
          stats := (stats b)\<lparr>TotalWaiting := TotalWaiting (stats b) - 1\<rparr>\<rparr>"
  have "deliveryInv ?b1 = deliveryInv b" by (rule deliveryInv_cong) simp_all
  then show ?case
    unfolding enqueueWaiting_def using waitOver by (intro dInv_enqueueLocked) simp_all
next
  case (delayOver eval b)
  let ?b1 = "b\<lparr>delayHeap := delayHeapRemove (delayHeap b) eval,
          stats := (stats b)\<lparr>TotalWaiting := TotalWaiting (stats b) - 1\<rparr>\<rparr>"
  have "deliveryInv ?b1 = deliveryInv b" by (rule deliveryInv_cong) simp_all
  then show ?case
    unfolding delayedEvalFire_def using delayOver by (intro dInv_enqueueLocked) simp_all
qed (simp_all add: dInv_timer_ops)

lemma reachable_deliveryInv: "reachable P b \<Longrightarrow> deliveryInv b"
  by (induction rule: reachable.induct) (auto intro: dInv_start dInv_step)

lemma Nack_returns:
  assumes "reachable P b" "unack b i = Some un" "Token un = t"
  shows "\<exists>b'. Nack b i t = Return (None, b')"
proof -
  have "classKnown b (Type (Eval un))"
    using reachable_deliveryInv [OF assms(1)] assms(2) unfolding deliveryInv_def by blast
  then obtain bySched where "ByScheduler (stats b) (Type (Eval un)) = Some bySched"
    by (auto simp: classKnown_def)
  then show ?thesis using Nack_result [OF assms(2,3)] by blast
qed

lemma requeue_recorded_any:
  assumes inv: "deliveryInv b" and u2: "unack b (ID E2) = Some un2" "Token un2 = T"
  shows "processEnqueue b E2 T = b\<lparr>requeue := (requeue b)(T \<mapsto> E2)\<rparr>"
proof -
  have "counterKnown b (ID E2)" using inv u2(1) unfolding deliveryInv_def by blast
  then have ev: "evals b (ID E2) \<noteq> None" by (simp add: counterKnown_def)
  have "T \<noteq> []" using inv u2 unfolding deliveryInv_def tokensUnique_def by blast
  moreover have "enabled b" using inv by (simp add: deliveryInv_def)
  ultimately show ?thesis using ev u2 by (auto simp: processEnqueue_def)
qed

lemma Nack_success_evals:
  assumes "Nack b i t = Return (None, b')"
  shows "evals b' = evals b"
proof -
  from assms obtain un :: unackEval where un: "unack b i = Some un" "Token un = t"
    by (auto simp: Nack_def Let_def deleteRequeue_def split: option.splits if_splits)
  from assms un obtain bySched :: SchedulerStats
    where bs: "ByScheduler (stats b) (Type (Eval un)) = Some bySched"
    by (auto simp: Nack_def Let_def deleteRequeue_def split: option.splits)
  show ?thesis
    using assms unfolding Nack_result [OF un bs]
    by (auto simp: Let_def processWaitingEnqueue_def split: if_splits)
qed

lemma not_outstanding_returns:
  "unack c i = None \<Longrightarrow> Ack c i t = Return (Some ErrNotFound, c\<lparr>requeue := (requeue c)(t := None)\<rparr>)"
  "unack c i = None \<Longrightarrow> Nack c i t = Return (Some ErrNotFound, c\<lparr>requeue := (requeue c)(t := None)\<rparr>)"
  "unack c i = Some u \<Longrightarrow> Token u \<noteq> t
     \<Longrightarrow> Ack c i t = Return (Some ErrTokenMismatch, c\<lparr>requeue := (requeue c)(t := None)\<rparr>)"
  "unack c i = Some u \<Longrightarrow> Token u \<noteq> t
     \<Longrightarrow> Nack c i t = Return (Some ErrTokenMismatch, c\<lparr>requeue := (requeue c)(t := None)\<rparr>)"
  by (simp_all add: Ack_def Nack_def Let_def deleteRequeue_def)

subsection \<open>Blocked evaluations wait for their promotion\<close>

lemma blocked_enqueueLocked_mono:
  "x \<in> set (lookupList (blocked b) k) \<Longrightarrow> x \<in> set (lookupList (blocked (enqueueLocked b e q)) k)"
  by (auto simp: enqueueLocked_def Let_def pushReady_def pushBlocked_def lookupList_def)

lemma blocked_processEnqueue_mono:
  "x \<in> set (lookupList (blocked b) k) \<Longrightarrow> x \<in> set (lookupList (blocked (processEnqueue b e t)) k)"
  by (auto simp: processEnqueue_def Let_def processWaitingEnqueue_def blocked_enqueueLocked_mono
      split: option.splits)

lemma blocked_scan:
  assumes "scanForSchedulers b schedulers token rnd = Return (Inr (r, b'))"
  shows "blocked b' = blocked b"
  using scan_result [OF assms]
  by (auto elim!: dequeueForSched_result)

lemma blocked_Nack:
  assumes "Nack b i t = Return (r, b')" "x \<in> set (lookupList (blocked b) k)"
  shows "x \<in> set (lookupList (blocked b') k)"
proof (cases "\<exists>un. unack b i = Some un \<and> Token un = t")
  case False
  then show ?thesis using Nack_failure(1) [OF False assms(1)] assms(2) by (simp add: deleteRequeue_def)
next
  case True
  then obtain un :: unackEval where un: "unack b i = Some un" "Token un = t" by blast
  from assms(1) un obtain bySched :: SchedulerStats
    where bs: "ByScheduler (stats b) (Type (Eval un)) = Some bySched"
    by (auto simp: Nack_def Let_def deleteRequeue_def split: option.splits)
  define b1 where "b1 = b\<lparr>requeue := (requeue b)(t := None), unack := (unack b)(i := None),
                  stats := (stats b)\<lparr>TotalUnacked := TotalUnacked (stats b) - 1,
                     ByScheduler := (ByScheduler (stats b))(Type (Eval un) \<mapsto>
                        bySched\<lparr>Unacked := Unacked bySched - 1\<rparr>)\<rparr>\<rparr>"
  have x1: "x \<in> set (lookupList (blocked b1) k)" using assms(2) by (simp add: b1_def)
  have "x \<in> set (lookupList (blocked (enqueueLocked b1 e q)) k)" for e q
    using x1 by (rule blocked_enqueueLocked_mono)
  moreover have "x \<in> set (lookupList (blocked (processWaitingEnqueue b1 e)) k)" for e
    using x1 by (simp add: processWaitingEnqueue_def)
  ultimately show ?thesis
    using assms(1) unfolding Nack_result [OF un bs] Let_def b1_def [symmetric]
    by (auto split: if_splits)
qed

lemma blocked_timer_ops:
  "blocked (nackTimerExpire b i) = blocked b"
  "blocked (snd (PauseNackTimeout b i t)) = blocked b"
  "blocked (snd (ResumeNackTimeout b i t)) = blocked b"
  "blocked (snd (OutstandingReset b i t)) = blocked b"
  by (auto simp: nackTimerExpire_def PauseNackTimeout_def ResumeNackTimeout_def
      OutstandingReset_def Let_def split: option.splits)

lemma blocked_Ack:
  assumes inv: "brokerInv b" and a: "Ack b i t = Return (r, b')"
    and x: "x \<in> set (lookupList (blocked b) k)"
  shows "x \<in> set (lookupList (blocked b') k)
     \<or> (\<exists>un. unack b i = Some un \<and> namespacedID (Eval un) = k
           \<and> x = hd (lookupList (blocked b) k) \<and> x \<in> set (lookupList (ready b') (Type x)))"
proof (cases r)
  case (Some err)
  then have "b' = deleteRequeue b t"
    using a by (auto simp: Ack_def Let_def split: option.splits if_splits outcome.splits)
  then show ?thesis using x by (simp add: deleteRequeue_def)
next
  case None
  with a obtain un :: unackEval and bySched :: SchedulerStats and b2 :: EvalBroker where
    un: "unack b i = Some un"
    and p: "promoteBlocked (b\<lparr>stats := (stats b)\<lparr>TotalUnacked := TotalUnacked (stats b) - 1,
         ByScheduler := (ByScheduler (stats b))
           ((if lookupInt (evals b) i > deliveryLimit b then failedQueue else Type (Eval un))
              \<mapsto> bySched\<lparr>Unacked := Unacked bySched - 1\<rparr>)\<rparr>,
       unack := (unack b)(i := None), evals := (evals b)(i := None),
       jobEvals := (jobEvals b)(namespacedID (Eval un) := None)\<rparr>) (namespacedID (Eval un))
       = Return b2"
    and b': "b' = deleteRequeue (case requeue b2 t of None \<Rightarrow> b2
                        | Some eval \<Rightarrow> processEnqueue b2 eval []) t"
    by (auto elim: Ack_success)
  let ?K = "namespacedID (Eval un)"
  have later: "y \<in> set (lookupList (blocked b') k')" if "y \<in> set (lookupList (blocked b2) k')" for y k'
    using that unfolding b' by (auto simp: deleteRequeue_def split: option.splits
        intro: blocked_processEnqueue_mono)
  show ?thesis
  proof (cases "heapPop (lookupList (blocked b) ?K)")
    case None
    then have "lookupList (blocked b) ?K = []" by (simp add: heapPop_None)
    then have "b2 = b\<lparr>stats := (stats b)\<lparr>TotalUnacked := TotalUnacked (stats b) - 1,
         ByScheduler := (ByScheduler (stats b))
           ((if lookupInt (evals b) i > deliveryLimit b then failedQueue else Type (Eval un))
              \<mapsto> bySched\<lparr>Unacked := Unacked bySched - 1\<rparr>)\<rparr>,
       unack := (unack b)(i := None), evals := (evals b)(i := None),
       jobEvals := (jobEvals b)(namespacedID (Eval un) := None)\<rparr>"
      using p by (simp add: promoteBlocked_def)
    then have "x \<in> set (lookupList (blocked b2) k)" using x by simp
    then show ?thesis using later by blast
  next
    case (Some pr)
    obtain x0 rest where pr: "pr = (x0, rest)" by (cases pr)
    have pop: "heapPop (lookupList (blocked b) ?K) = Some (x0, rest)" using Some pr by simp
    have ne: "lookupList (blocked b) ?K \<noteq> []" using pop by (auto simp: heapPop_None [symmetric])
    have s: "set (lookupList (blocked b) ?K) = insert x0 (set rest)" by (rule heapPop_set [OF pop])
    define b1 where "b1 = b\<lparr>stats := (stats b)\<lparr>TotalUnacked := TotalUnacked (stats b) - 1,
         ByScheduler := (ByScheduler (stats b))
           ((if lookupInt (evals b) i > deliveryLimit b then failedQueue else Type (Eval un))
              \<mapsto> bySched\<lparr>Unacked := Unacked bySched - 1\<rparr>)\<rparr>,
       unack := (unack b)(i := None), evals := (evals b)(i := None),
       jobEvals := (jobEvals b)(namespacedID (Eval un) := None)\<rparr>"
    define b1p where "b1p = b1\<lparr>blocked := (if length rest > 0 then (blocked b1)(?K \<mapsto> rest)
                               else (blocked b1)(?K := None)),
                  stats := (stats b1)\<lparr>TotalBlocked := TotalBlocked (stats b1) - 1\<rparr>\<rparr>"
    have bl1: "blocked b1 = blocked b" by (simp add: b1_def)
    have b2e: "b2 = enqueueLocked b1p x0 (Type x0)"
      using p pop ne unfolding b1_def [symmetric] b1p_def
      by (simp add: promoteBlocked_def Let_def bl1)
    have l1p: "lookupList (blocked b1p) k' = (if k' = ?K then rest else lookupList (blocked b) k')"
      for k'
      by (simp add: b1p_def bl1 lookupList_def)
    have b2: "y \<in> set (lookupList (blocked b2) k')"
      if "y \<in> set (if k' = ?K then rest else lookupList (blocked b) k')" for y k'
      unfolding b2e using that by (intro blocked_enqueueLocked_mono) (simp add: l1p)
    show ?thesis
    proof (cases "k = ?K \<and> x = x0")
      case True
      have "x0 \<in> set (lookupList (ready b') (Type x0))"
        using Ack_promotes [OF inv _ un pop] a None by simp
      then show ?thesis using True un heapPop_hd [OF pop] by blast
    next
      case False
      then have "x \<in> set (if k = ?K then rest else lookupList (blocked b) k)"
        using x s by auto
      then have "x \<in> set (lookupList (blocked b2) k)" by (rule b2)
      then show ?thesis using later by blast
    qed
  qed
qed

lemma blocked_conserved:
  assumes inv: "brokerInv b" and st: "step P b ev b'"
    and x: "x \<in> set (lookupList (blocked b) k)"
  shows "x \<in> set (lookupList (blocked b') k)
     \<or> (\<exists>i t un. ev = Acked i t \<and> unack b i = Some un \<and> namespacedID (Eval un) = k
           \<and> x = hd (lookupList (blocked b) k) \<and> x \<in> set (lookupList (ready b') (Type x)))"
  using st inv x
proof (induction rule: step.induct)
  case (enqueue eval b token)
  then show ?case by (simp add: blocked_processEnqueue_mono)
next
  case (dequeue token b schedulers rnd r b')
  then show ?case using blocked_scan by simp
next
  case (ack b evalID token err b')
  then show ?case using blocked_Ack [OF ack(2,1,3)] by blast
next
  case (nack b evalID token err b')
  then show ?case using blocked_Nack by blast
next
  case (waitOver b eval)
  then show ?case
    unfolding enqueueWaiting_def by (intro disjI1 blocked_enqueueLocked_mono) simp
next
  case (delayOver eval b)
  then show ?case
    unfolding delayedEvalFire_def by (intro disjI1 blocked_enqueueLocked_mono) simp
qed (simp_all add: blocked_timer_ops)

subsection \<open>Counting the deliveries of an evaluation\<close>

lemma counting_reachable: "counting b dq rt \<Longrightarrow> reachable namedEval b"
  by (induction rule: counting.induct) (auto intro: reachable.intros)

lemma ready_enqueueLocked_new:
  "y \<in> set (lookupList (ready (enqueueLocked b e q)) q')
     \<Longrightarrow> y \<in> set (lookupList (ready b) q') \<or> (y = e \<and> q' = q)"
  by (auto simp: enqueueLocked_def Let_def split: if_splits)

lemma processEnqueue_known:
  assumes "\<not> (enabled b \<and> evals b (ID e) = None)"
  shows "evals (processEnqueue b e t) = evals b" and "ready (processEnqueue b e t) = ready b"
proof -
  have "evals (processEnqueue b e t) = evals b \<and> ready (processEnqueue b e t) = ready b"
  proof (cases "enabled b")
    case False
    then show ?thesis by (simp add: processEnqueue_def)
  next
    case True
    then obtain c where "evals b (ID e) = Some c" using assms by auto
    then show ?thesis using True
      by (cases "unack b (ID e)") (simp_all add: processEnqueue_def)
  qed
  then show "evals (processEnqueue b e t) = evals b" and "ready (processEnqueue b e t) = ready b"
    by simp_all
qed

lemma evals_processEnqueue:
  "evals (processEnqueue b e t)
     = (if enabled b \<and> evals b (ID e) = None then (evals b)(ID e \<mapsto> 0) else evals b)"
proof (cases "enabled b \<and> evals b (ID e) = None")
  case True
  then show ?thesis by (simp add: processEnqueue_def Let_def processWaitingEnqueue_def)
next
  case False
  have "evals (processEnqueue b e t) = evals b" by (rule processEnqueue_known(1) [OF False])
  moreover have "(if enabled b \<and> evals b (ID e) = None then (evals b)(ID e \<mapsto> 0) else evals b)
      = evals b" using False by (rule if_not_P)
  ultimately show ?thesis by (rule trans [OF _ sym])
qed

lemma deliveryLimit_processEnqueue [simp]:
  "deliveryLimit (processEnqueue b e t) = deliveryLimit b"
  by (auto simp: processEnqueue_def Let_def processWaitingEnqueue_def split: option.splits)

lemma ready_processEnqueue_new:
  assumes "y \<in> set (lookupList (ready (processEnqueue b e t)) q)"
  shows "y \<in> set (lookupList (ready b) q) \<or> (y = e \<and> enabled b \<and> evals b (ID e) = None)"
proof (cases "enabled b \<and> evals b (ID e) = None")
  case False
  then show ?thesis using assms processEnqueue_known(2) [OF False] by simp
next
  case True
  let ?b = "b\<lparr>evals := (evals b)(ID e \<mapsto> 0)\<rparr>"
  have "y \<in> set (lookupList (ready ?b) q) \<or> y = e"
    using assms True ready_enqueueLocked_new [of y ?b e "Type e" q]
    by (auto simp: processEnqueue_def Let_def processWaitingEnqueue_def split: if_splits)
  then show ?thesis using True by auto
qed

lemma ready_in_evals:
  assumes "brokerInv b" "y \<in> set (lookupList (ready b) q)"
  shows "evals b (ID y) \<noteq> None"
proof -
  have "held b y (InReady q)" using assms(2) by simp
  then show ?thesis using assms(1) unfolding brokerInv_def counted_def by blast
qed

lemma lookupInt_processEnqueue [simp]:
  "lookupInt (evals (processEnqueue b e t)) i = lookupInt (evals b) i"
  by (simp add: evals_processEnqueue lookupInt_def)

lemma ghostInv_step:
  assumes g: "ghostInv b dq rt"
    and l: "\<And>i. lookupInt (evals b') i = lookupInt (evals b) i"
    and d: "deliveryLimit b' = deliveryLimit b"
    and r: "\<And>y. y \<in> set (lookupList (ready b') failedQueue) \<Longrightarrow> \<not> rt' (ID y)
              \<Longrightarrow> (y \<in> set (lookupList (ready b) failedQueue) \<and> \<not> rt (ID y))
                  \<or> lookupInt (evals b) (ID y) = 0 \<or> lookupInt (evals b) (ID y) < deliveryLimit b"
    and t: "\<And>i. \<not> rt' i \<Longrightarrow> \<not> rt i"
  shows "ghostInv b' dq rt'"
proof -
  have g1: "int (dq i) = lookupInt (evals b') i" for i
    using g unfolding ghostInv_def l by simp
  have g2: "lookupInt (evals b') (ID y) = 0 \<or> lookupInt (evals b') (ID y) < deliveryLimit b'"
    if "y \<in> set (lookupList (ready b') failedQueue)" "\<not> rt' (ID y)" for y
    using r [OF that] g unfolding ghostInv_def l d by blast
  have g4: "lookupInt (evals b') i \<le> max 1 (deliveryLimit b')" if "\<not> rt' i" for i
    using t [OF that] g unfolding ghostInv_def l d by blast
  show ?thesis unfolding ghostInv_def using g1 g2 g4 by blast
qed

lemma ghost_enqueue:
  assumes g: "ghostInv b dq rt"
  shows "ghostInv (processEnqueue b e t) dq rt"
proof (rule ghostInv_step [OF g])
  fix y
  assume "y \<in> set (lookupList (ready (processEnqueue b e t)) failedQueue)" "\<not> rt (ID y)"
  then show "(y \<in> set (lookupList (ready b) failedQueue) \<and> \<not> rt (ID y))
      \<or> lookupInt (evals b) (ID y) = 0 \<or> lookupInt (evals b) (ID y) < deliveryLimit b"
    using ready_processEnqueue_new [of y b e t failedQueue] by (auto simp: lookupInt_def)
qed simp_all

lemma ghost_enqueueLocked:
  assumes g: "ghostInv b dq rt"
    and e: "lookupInt (evals b) (ID e) = 0 \<or> lookupInt (evals b) (ID e) < deliveryLimit b"
  shows "ghostInv (enqueueLocked b e q) dq rt"
proof (rule ghostInv_step [OF g])
  fix y
  assume "y \<in> set (lookupList (ready (enqueueLocked b e q)) failedQueue)" "\<not> rt (ID y)"
  then show "(y \<in> set (lookupList (ready b) failedQueue) \<and> \<not> rt (ID y))
      \<or> lookupInt (evals b) (ID y) = 0 \<or> lookupInt (evals b) (ID y) < deliveryLimit b"
    using ready_enqueueLocked_new [of y b e q failedQueue] e by auto
qed simp_all

lemma ghostInv_cong:
  assumes "evals b' = evals b" "ready b' = ready b" "deliveryLimit b' = deliveryLimit b"
  shows "ghostInv b' dq rt = ghostInv b dq rt"
  unfolding ghostInv_def assms ..

lemma ghost_enqueueWaiting:
  assumes inv: "brokerInv b" and g: "ghostInv b dq rt" and w: "timeWait b (ID e) = Some e"
  shows "ghostInv (enqueueWaiting b e) dq rt"
proof -
  let ?b = "b\<lparr>timeWait := (timeWait b)(ID e := None),
          stats := (stats b)\<lparr>TotalWaiting := TotalWaiting (stats b) - 1\<rparr>\<rparr>"
  have "held b e InTimeWait" using w by simp
  then have c: "lookupInt (evals b) (ID e) = 0 \<or> lookupInt (evals b) (ID e) < deliveryLimit b"
    using inv unfolding brokerInv_def withinLimit_def by blast
  have "ghostInv ?b dq rt = ghostInv b dq rt" by (rule ghostInv_cong) simp_all
  then have "ghostInv ?b dq rt" using g by simp
  then show ?thesis unfolding enqueueWaiting_def by (rule ghost_enqueueLocked) (use c in simp)
qed

lemma ghost_delayedEvalFire:
  assumes inv: "brokerInv b" and g: "ghostInv b dq rt" and w: "e \<in> set (delayHeap b)"
  shows "ghostInv (delayedEvalFire b e) dq rt"
proof -
  let ?b = "b\<lparr>delayHeap := delayHeapRemove (delayHeap b) e,
          stats := (stats b)\<lparr>TotalWaiting := TotalWaiting (stats b) - 1\<rparr>\<rparr>"
  have "held b e InDelay" using w by simp
  then have c: "lookupInt (evals b) (ID e) = 0 \<or> lookupInt (evals b) (ID e) < deliveryLimit b"
    using inv unfolding brokerInv_def withinLimit_def by blast
  have "ghostInv ?b dq rt = ghostInv b dq rt" by (rule ghostInv_cong) simp_all
  then have "ghostInv ?b dq rt" using g by simp
  then show ?thesis unfolding delayedEvalFire_def by (rule ghost_enqueueLocked) (use c in simp)
qed

lemma ghost_timer_ops:
  assumes g: "ghostInv b dq rt"
  shows "ghostInv (nackTimerExpire b i) dq rt"
    and "ghostInv (snd (PauseNackTimeout b i t)) dq rt"
    and "ghostInv (snd (ResumeNackTimeout b i t)) dq rt"
    and "ghostInv (snd (OutstandingReset b i t)) dq rt"
proof -
  have k: "ghostInv (b\<lparr>unack := u\<rparr>) dq rt" for u
    using g ghostInv_cong [of "b\<lparr>unack := u\<rparr>" b dq rt] by simp
  show "ghostInv (nackTimerExpire b i) dq rt"
    using g k by (auto simp: nackTimerExpire_def split: option.splits)
  show "ghostInv (snd (PauseNackTimeout b i t)) dq rt"
    using g k by (auto simp: PauseNackTimeout_def Let_def split: option.splits)
  show "ghostInv (snd (ResumeNackTimeout b i t)) dq rt"
    using g k by (auto simp: ResumeNackTimeout_def Let_def split: option.splits)
  show "ghostInv (snd (OutstandingReset b i t)) dq rt"
    using g k by (auto simp: OutstandingReset_def Let_def split: option.splits)
qed

lemma ghost_deleteRequeue: "ghostInv (deleteRequeue b t) dq rt = ghostInv b dq rt"
  by (rule ghostInv_cong) (simp_all add: deleteRequeue_def)

lemma ghost_dequeueForSched:
  assumes inv: "brokerInv b" and g: "ghostInv b dq rt"
    and d: "dequeueForSched b sched token = Return ((e, tk), b')"
  shows "ghostInv b' (dq(ID e := dq (ID e) + 1)) rt"
proof -
  from d obtain pending bySched where pop: "heapPop (lookupList (ready b) sched) = Some (e, pending)"
    and b': "b' = b\<lparr>ready := (ready b)(sched \<mapsto> pending),
            unack := (unack b)(ID e \<mapsto> \<lparr>Eval = e, Token = token, NackTimer = Running\<rparr>),
            evals := (evals b)(ID e \<mapsto> lookupInt (evals b) (ID e) + 1),
            stats := (stats b)\<lparr>TotalReady := TotalReady (stats b) - 1,
               TotalUnacked := TotalUnacked (stats b) + 1,
               ByScheduler := (ByScheduler (stats b))(sched \<mapsto>
                  bySched\<lparr>Ready := Ready bySched - 1, Unacked := Unacked bySched + 1\<rparr>)\<rparr>\<rparr>"
    by (rule dequeueForSched_result)
  have dist: "distinct (map ID (lookupList (ready b) sched))"
    using inv by (simp add: brokerInv_def queuesDistinct_def)
  note p = heapPop_distinct [OF pop dist]
  have he: "held b e (InReady sched)" by (rule pop_ready(3) [OF inv pop])
  have l: "lookupInt (evals b') i = (if i = ID e then lookupInt (evals b) (ID e) + 1
                                      else lookupInt (evals b) i)" for i
    by (simp add: b' lookupInt_def)
  have lim: "deliveryLimit b' = deliveryLimit b" by (simp add: b')
  have sub: "y \<in> set (lookupList (ready b) failedQueue) \<and> ID y \<noteq> ID e"
    if y: "y \<in> set (lookupList (ready b') failedQueue)" for y
  proof (cases "sched = failedQueue")
    case True
    then have "y \<in> set pending" using y by (simp add: b' lookupList_def)
    then show ?thesis using p True by auto
  next
    case False
    then have m: "y \<in> set (lookupList (ready b) failedQueue)"
      using y by (simp add: b' lookupList_def)
    then have "held b y (InReady failedQueue)" by simp
    then have "ID y \<noteq> ID e"
      using he inv False unfolding brokerInv_def onePlace_def by (metis place.inject(1))
    then show ?thesis using m by simp
  qed
  have g1: "int ((dq(ID e := dq (ID e) + 1)) i) = lookupInt (evals b') i" for i
    using g unfolding ghostInv_def l by simp
  have g2: "lookupInt (evals b') (ID y) = 0 \<or> lookupInt (evals b') (ID y) < deliveryLimit b'"
    if "y \<in> set (lookupList (ready b') failedQueue)" "\<not> rt (ID y)" for y
    using sub [OF that(1)] that(2) g unfolding ghostInv_def l lim by simp
  have ce: "lookupInt (evals b) (ID e) = 0 \<or> lookupInt (evals b) (ID e) < deliveryLimit b"
    if "\<not> rt (ID e)"
  proof (cases "sched = failedQueue")
    case True
    then show ?thesis using he that g unfolding ghostInv_def by simp
  next
    case False
    then have "InReady sched \<noteq> InUnack" "InReady sched \<noteq> InReady failedQueue" by simp_all
    then show ?thesis using he inv unfolding brokerInv_def withinLimit_def by blast
  qed
  have g4: "lookupInt (evals b') i \<le> max 1 (deliveryLimit b')" if n: "\<not> rt i" for i
  proof (cases "i = ID e")
    case True
    then show ?thesis using ce n unfolding l lim by auto
  next
    case False
    then show ?thesis using n g unfolding ghostInv_def l lim by simp
  qed
  show ?thesis unfolding ghostInv_def using g1 g2 g4 by blast
qed

lemma ghost_scan:
  assumes inv: "brokerInv b" and g: "ghostInv b dq rt"
    and s: "scanForSchedulers b schedulers token rnd = Return (Inr (r, b'))"
  shows "ghostInv b' (dequeuesAfter b (Scanned schedulers token rnd) dq) rt"
proof -
  from scan_result [OF s] show ?thesis
  proof (elim disjE exE conjE)
    assume "r = None" "b' = b"
    then show ?thesis using g s by (simp add: scanned_def)
  next
    fix e sched
    assume r: "r = Some (e, token)" and d: "dequeueForSched b sched token = Return ((e, token), b')"
    have "scanned (scanForSchedulers b schedulers token rnd) = Some e"
      by (simp add: s r scanned_def)
    then show ?thesis using ghost_dequeueForSched [OF inv g d] by simp
  qed
qed

lemma ready_promoteBlocked_new:
  assumes p: "promoteBlocked b k = Return b2" and y: "y \<in> set (lookupList (ready b2) q)"
  shows "y \<in> set (lookupList (ready b) q) \<or> y \<in> set (lookupList (blocked b) k)"
proof (cases "length (lookupList (blocked b) k) \<noteq> 0")
  case False
  then show ?thesis using p y by (simp add: promoteBlocked_def Let_def)
next
  case True
  then obtain x rest where pop: "heapPop (lookupList (blocked b) k) = Some (x, rest)"
    using p by (auto simp: promoteBlocked_def Let_def split: option.splits)
  define b1 where "b1 = b\<lparr>blocked := (if length rest > 0 then (blocked b)(k \<mapsto> rest)
                               else (blocked b)(k := None)),
                  stats := (stats b)\<lparr>TotalBlocked := TotalBlocked (stats b) - 1\<rparr>\<rparr>"
  have b2: "b2 = enqueueLocked b1 x (Type x)"
    using p True pop by (simp add: promoteBlocked_def Let_def b1_def)
  have "y \<in> set (lookupList (ready b1) q) \<or> y = x"
    using y ready_enqueueLocked_new [of y b1 x "Type x" q] unfolding b2 by blast
  moreover have "x \<in> set (lookupList (blocked b) k)" using heapPop_set [OF pop] by simp
  moreover have "ready b1 = ready b" by (simp add: b1_def)
  ultimately show ?thesis by auto
qed

lemma promoteBlocked_deliveryLimit:
  "promoteBlocked b k = Return b2 \<Longrightarrow> deliveryLimit b2 = deliveryLimit b"
  by (auto simp: promoteBlocked_def Let_def split: if_splits option.splits)

lemma Ack_failure:
  assumes "Ack b i t = Return (Some err, b')"
  shows "b' = deleteRequeue b t"
  using assms unfolding Ack_def
  by (auto simp: Let_def split: option.splits if_splits outcome.splits)

lemma ghost_Ack:
  assumes inv: "brokerInv b" and g: "ghostInv b dq rt" and a: "Ack b i t = Return (r, b')"
  shows "ghostInv b' (dequeuesAfter b (Acked i t) dq) (routedAfter b (Acked i t) rt)"
proof (cases r)
  case (Some err)
  then have "b' = deleteRequeue b t" using a Ack_failure by blast
  moreover have "\<not> succeeded (Ack b i t)" using a Some by (simp add: succeeded_def)
  ultimately show ?thesis using g by (simp add: ghost_deleteRequeue)
next
  case None
  then have a': "Ack b i t = Return (None, b')" using a by simp
  then have sc: "succeeded (Ack b i t)" by (simp add: succeeded_def)
  from a' obtain un :: unackEval and bySched :: SchedulerStats and b2 :: EvalBroker
    where un: "unack b i = Some un" "Token un = t"
      and pr: "promoteBlocked (b\<lparr>stats := (stats b)\<lparr>TotalUnacked := TotalUnacked (stats b) - 1,
         ByScheduler := (ByScheduler (stats b))
           ((if lookupInt (evals b) i > deliveryLimit b then failedQueue else Type (Eval un))
              \<mapsto> bySched\<lparr>Unacked := Unacked bySched - 1\<rparr>)\<rparr>,
       unack := (unack b)(i := None), evals := (evals b)(i := None),
       jobEvals := (jobEvals b)(namespacedID (Eval un) := None)\<rparr>) (namespacedID (Eval un))
       = Return b2"
      and b': "b' = deleteRequeue (case requeue b2 t of None \<Rightarrow> b2
                        | Some eval \<Rightarrow> processEnqueue b2 eval []) t"
    by (rule Ack_success)
  define b1 where "b1 = b\<lparr>stats := (stats b)\<lparr>TotalUnacked := TotalUnacked (stats b) - 1,
         ByScheduler := (ByScheduler (stats b))
           ((if lookupInt (evals b) i > deliveryLimit b then failedQueue else Type (Eval un))
              \<mapsto> bySched\<lparr>Unacked := Unacked bySched - 1\<rparr>)\<rparr>,
       unack := (unack b)(i := None), evals := (evals b)(i := None),
       jobEvals := (jobEvals b)(namespacedID (Eval un) := None)\<rparr>"
  define b3 where "b3 = (case requeue b2 t of None \<Rightarrow> b2 | Some eval \<Rightarrow> processEnqueue b2 eval [])"
  have pr1: "promoteBlocked b1 (namespacedID (Eval un)) = Return b2" using pr by (simp add: b1_def)
  have e2: "evals b2 = (evals b)(i := None)"
    using promoteBlocked_fields(2) [OF pr1] by (simp add: b1_def)
  have lim2: "deliveryLimit b2 = deliveryLimit b"
    using promoteBlocked_deliveryLimit [OF pr1] by (simp add: b1_def)
  have l2: "lookupInt (evals b2) j = (if j = i then 0 else lookupInt (evals b) j)" for j
    by (simp add: e2 lookupInt_def)
  have l3: "lookupInt (evals b3) j = lookupInt (evals b2) j" for j
    by (cases "requeue b2 t") (simp_all add: b3_def)
  have lim3: "deliveryLimit b3 = deliveryLimit b2"
    by (cases "requeue b2 t") (simp_all add: b3_def)
  have r2: "y \<in> set (lookupList (ready b) q) \<or> y \<in> set (lookupList (blocked b) (namespacedID (Eval un)))"
    if "y \<in> set (lookupList (ready b2) q)" for y q
    using ready_promoteBlocked_new [OF pr1 that] by (simp add: b1_def)
  have r3: "y \<in> set (lookupList (ready b2) q) \<or> evals b2 (ID y) = None"
    if "y \<in> set (lookupList (ready b3) q)" for y q
  proof (cases "requeue b2 t")
    case None
    then show ?thesis using that by (simp add: b3_def)
  next
    case (Some E2)
    then show ?thesis using that ready_processEnqueue_new [of y b2 E2 "[]" q]
      by (auto simp: b3_def)
  qed
  have l: "lookupInt (evals b') j = (if j = i then 0 else lookupInt (evals b) j)" for j
    using l3 [of j] l2 [of j] by (simp add: b' b3_def [symmetric] deleteRequeue_def)
  have lim: "deliveryLimit b' = deliveryLimit b"
    using lim3 lim2 by (simp add: b' b3_def [symmetric] deleteRequeue_def)
  have rb: "ready b' = ready b3" by (simp add: b' b3_def [symmetric] deleteRequeue_def)
  have g1: "int ((dq(i := 0)) j) = lookupInt (evals b') j" for j
    using g unfolding ghostInv_def l by simp
  have g2: "lookupInt (evals b') (ID y) = 0 \<or> lookupInt (evals b') (ID y) < deliveryLimit b'"
    if y: "y \<in> set (lookupList (ready b') failedQueue)" "\<not> (rt(i := False)) (ID y)" for y
  proof (cases "ID y = i")
    case True
    then show ?thesis by (simp add: l)
  next
    case False
    from y(1) have "y \<in> set (lookupList (ready b3) failedQueue)" by (simp add: rb)
    from r3 [OF this] show ?thesis
    proof
      assume "evals b2 (ID y) = None"
      then have "lookupInt (evals b2) (ID y) = 0" by (simp add: lookupInt_def)
      then show ?thesis using l2 [of "ID y"] by (simp add: l)
    next
      assume "y \<in> set (lookupList (ready b2) failedQueue)"
      from r2 [OF this] show ?thesis
      proof
        assume "y \<in> set (lookupList (ready b) failedQueue)"
        then show ?thesis using g y(2) False unfolding ghostInv_def l lim by simp
      next
        assume "y \<in> set (lookupList (blocked b) (namespacedID (Eval un)))"
        then have "held b y (InBlocked (namespacedID (Eval un)))" by simp
        then have "lookupInt (evals b) (ID y) = 0 \<or> lookupInt (evals b) (ID y) < deliveryLimit b"
          using inv unfolding brokerInv_def withinLimit_def by blast
        then show ?thesis using False unfolding l lim by simp
      qed
    qed
  qed
  have g4: "lookupInt (evals b') j \<le> max 1 (deliveryLimit b')" if "\<not> (rt(i := False)) j" for j
    using that g unfolding ghostInv_def l lim by (cases "j = i") auto
  have "ghostInv b' (dq(i := 0)) (rt(i := False))"
    unfolding ghostInv_def using g1 g2 g4 by blast
  then show ?thesis using sc by simp
qed

lemma ready_Nack_new:
  assumes inv: "brokerInv b" and a: "Nack b i t = Return (None, b')"
    and y: "y \<in> set (lookupList (ready b') q)"
  shows "y \<in> set (lookupList (ready b) q) \<or> ID y = i"
proof -
  from a obtain un :: unackEval where un: "unack b i = Some un" "Token un = t"
    by (auto simp: Nack_def Let_def deleteRequeue_def split: option.splits if_splits)
  from a un obtain bySched :: SchedulerStats
    where bs: "ByScheduler (stats b) (Type (Eval un)) = Some bySched"
    by (auto simp: Nack_def Let_def deleteRequeue_def split: option.splits)
  have i: "ID (Eval un) = i" using inv un(1) by (auto simp: brokerInv_def keyedByID_def)
  define b1 where "b1 = b\<lparr>requeue := (requeue b)(t := None), unack := (unack b)(i := None),
                  stats := (stats b)\<lparr>TotalUnacked := TotalUnacked (stats b) - 1,
                     ByScheduler := (ByScheduler (stats b))(Type (Eval un) \<mapsto>
                        bySched\<lparr>Unacked := Unacked bySched - 1\<rparr>)\<rparr>\<rparr>"
  define d where "d = nackReenqueueDelay b (Eval un) (lookupInt (evals b) i)"
  have res: "b' = (if lookupInt (evals b) i \<ge> deliveryLimit b
                   then enqueueLocked b1 (Eval un) failedQueue
                   else if d > 0 then processWaitingEnqueue b1 ((Eval un)\<lparr>Wait := d\<rparr>)
                   else enqueueLocked b1 ((Eval un)\<lparr>Wait := d\<rparr>) (Type (Eval un)))"
    using a unfolding Nack_result [OF un bs] by (auto simp: Let_def b1_def d_def)
  have r1: "ready b1 = ready b" by (simp add: b1_def)
  consider (f) "b' = enqueueLocked b1 (Eval un) failedQueue"
    | (w) "b' = processWaitingEnqueue b1 ((Eval un)\<lparr>Wait := d\<rparr>)"
    | (o) "b' = enqueueLocked b1 ((Eval un)\<lparr>Wait := d\<rparr>) (Type (Eval un))"
    using res by (auto split: if_splits)
  then show ?thesis
  proof cases
    case f
    then show ?thesis
      using y ready_enqueueLocked_new [of y b1 "Eval un" failedQueue q] i r1 by auto
  next
    case w
    then show ?thesis using y r1 by (simp add: processWaitingEnqueue_def)
  next
    case o
    then show ?thesis
      using y ready_enqueueLocked_new [of y b1 "(Eval un)\<lparr>Wait := d\<rparr>" "Type (Eval un)" q] i r1
      by auto
  qed
qed

lemma Nack_deliveryLimit:
  assumes "Nack b i t = Return (r, b')"
  shows "deliveryLimit b' = deliveryLimit b"
  using assms unfolding Nack_def
  by (auto simp: Let_def deleteRequeue_def processWaitingEnqueue_def
      split: option.splits if_splits)

lemma ghost_Nack:
  assumes inv: "brokerInv b" and g: "ghostInv b dq rt" and a: "Nack b i t = Return (r, b')"
  shows "ghostInv b' dq (routedAfter b (Nacked i t) rt)"
proof (cases r)
  case (Some err)
  have "b' = deleteRequeue b t"
  proof (cases "\<exists>un. unack b i = Some un \<and> Token un = t")
    case False
    then show ?thesis using a by (rule Nack_failure(1))
  next
    case True
    then obtain un :: unackEval where un: "unack b i = Some un" "Token un = t" by blast
    then show ?thesis using a Some
      by (auto simp: Nack_def Let_def deleteRequeue_def split: option.splits if_splits)
  qed
  moreover have "\<not> succeeded (Nack b i t)" using a Some by (simp add: succeeded_def)
  ultimately show ?thesis using g by (simp add: ghost_deleteRequeue)
next
  case None
  then have a': "Nack b i t = Return (None, b')" using a by simp
  have ac: "afterCall b (Nack b i t) = b'" by (simp add: a' afterCall_def)
  have sc: "succeeded (Nack b i t)" by (simp add: a' succeeded_def)
  have ev: "evals b' = evals b" using a' by (rule Nack_success_evals)
  show ?thesis
  proof (rule ghostInv_step [OF g])
    show "lookupInt (evals b') j = lookupInt (evals b) j" for j by (simp add: ev)
    show "deliveryLimit b' = deliveryLimit b" using a by (rule Nack_deliveryLimit)
    show "\<not> rt j" if "\<not> routedAfter b (Nacked i t) rt j" for j
      using that by (auto split: if_splits)
    fix y
    assume y: "y \<in> set (lookupList (ready b') failedQueue)"
      and n: "\<not> routedAfter b (Nacked i t) rt (ID y)"
    have "ID y \<noteq> i"
    proof
      assume "ID y = i"
      then have "routedAfter b (Nacked i t) rt (ID y)" using y sc ac by auto
      then show False using n by simp
    qed
    then have "y \<in> set (lookupList (ready b) failedQueue)"
      using ready_Nack_new [OF inv a' y] by simp
    moreover have "\<not> rt (ID y)" using n by (auto split: if_splits)
    ultimately show "(y \<in> set (lookupList (ready b) failedQueue) \<and> \<not> rt (ID y))
      \<or> lookupInt (evals b) (ID y) = 0 \<or> lookupInt (evals b) (ID y) < deliveryLimit b"
      by simp
  qed
qed

lemma ghost_step:
  assumes inv: "brokerInv b" and g: "ghostInv b dq rt" and st: "step P b ev b'"
  shows "ghostInv b' (dequeuesAfter b ev dq) (routedAfter b ev rt)"
  using st inv g
proof (induction rule: step.induct)
  case (enqueue eval b token)
  then show ?case by (simp add: ghost_enqueue)
next
  case (dequeue token b schedulers rnd r b')
  then show ?case using ghost_scan [of b dq rt schedulers token rnd r b'] by simp
next
  case (ack b evalID token err b')
  then show ?case using ghost_Ack by blast
next
  case (nack b evalID token err b')
  then show ?case using ghost_Nack [of b dq rt evalID token err b'] by simp
next
  case (waitOver b eval)
  then show ?case by (simp add: ghost_enqueueWaiting)
next
  case (delayOver eval b)
  then show ?case by (simp add: ghost_delayedEvalFire)
qed (simp_all add: ghost_timer_ops)

lemma ghost_start:
  assumes "NewEvalBroker timeout initialDelay subsequentDelay limit = Inr b0"
  shows "ghostInv (SetEnabled b0 True) noDequeues noneRouted"
proof -
  have "b0 = newBroker timeout initialDelay subsequentDelay limit"
    using assms by (auto simp: NewEvalBroker_def split: if_splits)
  then show ?thesis
    by (simp add: ghostInv_def SetEnabled_def newBroker_def lookupInt_def lookupList_def
        Let_def noDequeues_def noneRouted_def)
qed

lemma counting_ghostInv: "counting b dq rt \<Longrightarrow> ghostInv b dq rt"
proof (induction rule: counting.induct)
  case (start timeout initialDelay subsequentDelay limit b0)
  then show ?case by (rule ghost_start)
next
  case (after b dq rt ev b')
  have "brokerInv b" using after.hyps(1) by (intro reachable_inv counting_reachable)
  then show ?case using after.IH after.hyps(2) by (rule ghost_step)
qed

subsection \<open>The life of a requeued evaluation\<close>

lemma Ack_returns:
  assumes inv: "deliveryInv b" and u: "unack b i = Some un" "Token un = t"
    and tm: "fst (timerStop (NackTimer un))" and c: "lookupInt (evals b) i \<le> deliveryLimit b"
  shows "\<exists>b'. Ack b i t = Return (None, b')"
proof -
  have "classKnown b (Type (Eval un))" using inv u(1) unfolding deliveryInv_def by blast
  then obtain bySched :: SchedulerStats
    where bs: "ByScheduler (stats b) (Type (Eval un)) = Some bySched"
    by (auto simp: classKnown_def)
  define b1 where "b1 = b\<lparr>stats := (stats b)\<lparr>TotalUnacked := TotalUnacked (stats b) - 1,
         ByScheduler := (ByScheduler (stats b))(Type (Eval un)
              \<mapsto> bySched\<lparr>Unacked := Unacked bySched - 1\<rparr>)\<rparr>,
       unack := (unack b)(i := None), evals := (evals b)(i := None),
       jobEvals := (jobEvals b)(namespacedID (Eval un) := None)\<rparr>"
  have "\<exists>b2. promoteBlocked b1 (namespacedID (Eval un)) = Return b2"
  proof (cases "heapPop (lookupList (blocked b1) (namespacedID (Eval un)))")
    case None
    then have "lookupList (blocked b1) (namespacedID (Eval un)) = []"
      by (simp add: heapPop_None)
    then show ?thesis by (simp add: promoteBlocked_def)
  next
    case (Some p)
    then show ?thesis by (cases p) (simp add: promoteBlocked_def Let_def)
  qed
  then obtain b2 where "promoteBlocked b1 (namespacedID (Eval un)) = Return b2" by blast
  then show ?thesis
    using u tm c bs unfolding Ack_def by (simp add: Let_def b1_def)
qed

text \<open>
  C4. The life of a requeued evaluation. In a state the enabled broker can reach,
  whatever evaluations the producers submit, let E be outstanding under token T, and
  let E2 be submitted through \<open>EnqueueAll\<close> with T while the delivery under the
  id of E2 carries T. Then E2 is only recorded in the requeue table under T: nothing
  else of the broker changes, no counter is created. A successful Ack of E with T
  enqueues E2 as a new evaluation (counter 0, and E2 is placed by its wait fields), and
  Ack does succeed when the nack timer of the delivery is still running and the attempt
  counter is within the delivery limit. Nack of E with T returns without an error, in
  the very state that Nack reaches when E2 was never submitted: the requeue entry is
  gone and no counter has changed, so E2 is dropped. Every return of Ack and of Nack
  leaves no requeue entry under its token, and the error returns are returns: for an
  unknown id, for a token that does not match, and for an Ack after the nack timer,
  the call returns the error and the broker with only the requeue entry removed.
\<close>

theorem requeue_lifecycle:
  assumes "reachable P b"
    and "unack b (ID E) = Some un" and "Token un = T"
    and "unack b (ID E2) = Some un2" and "Token un2 = T"
  shows "EnqueueAll b [(E2, T)] = b\<lparr>requeue := (requeue b)(T \<mapsto> E2)\<rparr>
    \<and> (\<forall>b'. Ack (EnqueueAll b [(E2, T)]) (ID E) T = Return (None, b')
          \<longrightarrow> evals b' (ID E2) = Some 0 \<and> placed b' E2 \<and> requeue b' T = None)
    \<and> (fst (timerStop (NackTimer un)) \<and> lookupInt (evals b) (ID E) \<le> deliveryLimit b
          \<longrightarrow> (\<exists>b'. Ack (EnqueueAll b [(E2, T)]) (ID E) T = Return (None, b')))
    \<and> (\<exists>b'. Nack (EnqueueAll b [(E2, T)]) (ID E) T = Return (None, b')
            \<and> Nack b (ID E) T = Return (None, b')
            \<and> requeue b' T = None \<and> evals b' (ID E2) = evals b (ID E2))
    \<and> (\<forall>c i t r c'. Ack c i t = Return (r, c') \<longrightarrow> requeue c' t = None)
    \<and> (\<forall>c i t r c'. Nack c i t = Return (r, c') \<longrightarrow> requeue c' t = None)
    \<and> (\<forall>c i t. unack c i = None \<longrightarrow>
          Ack c i t = Return (Some ErrNotFound, c\<lparr>requeue := (requeue c)(t := None)\<rparr>)
          \<and> Nack c i t = Return (Some ErrNotFound, c\<lparr>requeue := (requeue c)(t := None)\<rparr>))
    \<and> (\<forall>c i t u. unack c i = Some u \<and> Token u \<noteq> t \<longrightarrow>
          Ack c i t = Return (Some ErrTokenMismatch, c\<lparr>requeue := (requeue c)(t := None)\<rparr>)
          \<and> Nack c i t = Return (Some ErrTokenMismatch, c\<lparr>requeue := (requeue c)(t := None)\<rparr>))
    \<and> (\<forall>c i t u. unack c i = Some u \<and> Token u = t \<and> \<not> fst (timerStop (NackTimer u)) \<longrightarrow>
          Ack c i t = Return (Some ErrAckAfterNack, c\<lparr>requeue := (requeue c)(t := None)\<rparr>))"
proof -
  have inv: "deliveryInv b" using assms(1) by (rule reachable_deliveryInv)
  have same: "ID E2 = ID E"
    using inv assms(2-5) unfolding deliveryInv_def tokensUnique_def by blast
  let ?bR = "b\<lparr>requeue := (requeue b)(T \<mapsto> E2)\<rparr>"
  have rec: "EnqueueAll b [(E2, T)] = ?bR"
    using requeue_recorded_any [OF inv assms(4,5)] by simp
  have ack: "\<forall>b'. Ack (EnqueueAll b [(E2, T)]) (ID E) T = Return (None, b')
          \<longrightarrow> evals b' (ID E2) = Some 0 \<and> placed b' E2 \<and> requeue b' T = None"
  proof (intro allI impI)
    fix b'
    assume "Ack (EnqueueAll b [(E2, T)]) (ID E) T = Return (None, b')"
    then have a: "Ack ?bR (ID E) T = Return (None, b')" by (simp only: rec)
    from a obtain u :: unackEval and bySched :: SchedulerStats and b2 :: EvalBroker where
      p: "promoteBlocked (?bR\<lparr>stats := (stats ?bR)\<lparr>TotalUnacked := TotalUnacked (stats ?bR) - 1,
         ByScheduler := (ByScheduler (stats ?bR))
           ((if lookupInt (evals ?bR) (ID E) > deliveryLimit ?bR then failedQueue else Type (Eval u))
              \<mapsto> bySched\<lparr>Unacked := Unacked bySched - 1\<rparr>)\<rparr>,
         unack := (unack ?bR)(ID E := None), evals := (evals ?bR)(ID E := None),
         jobEvals := (jobEvals ?bR)(namespacedID (Eval u) := None)\<rparr>) (namespacedID (Eval u))
         = Return b2"
      and b': "b' = deleteRequeue (case requeue b2 T of None \<Rightarrow> b2
                        | Some eval \<Rightarrow> processEnqueue b2 eval []) T"
      by (rule Ack_success)
    note f = promoteBlocked_fields [OF p]
    have en: "enabled b2" using f(1) inv by (simp add: deliveryInv_def)
    have ev: "evals b2 (ID E2) = None" using f(2) same by simp
    have rq: "requeue b2 T = Some E2" using f(3) by simp
    have b'': "b' = deleteRequeue (processEnqueue b2 E2 []) T" using b' rq by simp
    show "evals b' (ID E2) = Some 0 \<and> placed b' E2 \<and> requeue b' T = None"
      using processEnqueue_fresh [OF en ev, of "[]"]
      by (simp add: b'' deleteRequeue_def placed_def)
  qed
  have invR: "deliveryInv ?bR = deliveryInv b" by (rule deliveryInv_cong) simp_all
  have ackr: "fst (timerStop (NackTimer un)) \<and> lookupInt (evals b) (ID E) \<le> deliveryLimit b
          \<longrightarrow> (\<exists>b'. Ack (EnqueueAll b [(E2, T)]) (ID E) T = Return (None, b'))"
  proof (intro impI, elim conjE)
    assume tm: "fst (timerStop (NackTimer un))" and c: "lookupInt (evals b) (ID E) \<le> deliveryLimit b"
    have "\<exists>b'. Ack ?bR (ID E) T = Return (None, b')"
      using inv invR assms(2,3) tm c by (intro Ack_returns [where un = un]) simp_all
    then show "\<exists>b'. Ack (EnqueueAll b [(E2, T)]) (ID E) T = Return (None, b')"
      by (simp only: rec)
  qed
  have eq: "Nack ?bR (ID E) T = Nack b (ID E) T"
    by (simp add: Nack_def deleteRequeue_def)
  obtain b' where n: "Nack b (ID E) T = Return (None, b')"
    using Nack_returns [OF assms(1-3)] by blast
  have nack: "\<exists>b'. Nack (EnqueueAll b [(E2, T)]) (ID E) T = Return (None, b')
            \<and> Nack b (ID E) T = Return (None, b')
            \<and> requeue b' T = None \<and> evals b' (ID E2) = evals b (ID E2)"
    using n eq Nack_clears_requeue [OF n] Nack_success_evals [OF n]
    by (intro exI [of _ b']) (simp add: requeue_recorded_any [OF inv assms(4,5)])
  have p4: "\<forall>c i t r c'. Ack c i t = Return (r, c') \<longrightarrow> requeue c' t = None"
    using Ack_clears_requeue by blast
  have p5: "\<forall>c i t r c'. Nack c i t = Return (r, c') \<longrightarrow> requeue c' t = None"
    using Nack_clears_requeue by blast
  have p6: "\<forall>c i t. unack c i = None \<longrightarrow>
          Ack c i t = Return (Some ErrNotFound, c\<lparr>requeue := (requeue c)(t := None)\<rparr>)
          \<and> Nack c i t = Return (Some ErrNotFound, c\<lparr>requeue := (requeue c)(t := None)\<rparr>)"
    using not_outstanding_returns(1,2) by blast
  have p7: "\<forall>c i t u. unack c i = Some u \<and> Token u \<noteq> t \<longrightarrow>
          Ack c i t = Return (Some ErrTokenMismatch, c\<lparr>requeue := (requeue c)(t := None)\<rparr>)
          \<and> Nack c i t = Return (Some ErrTokenMismatch, c\<lparr>requeue := (requeue c)(t := None)\<rparr>)"
    using not_outstanding_returns(3,4) by blast
  have p8: "\<forall>c i t u. unack c i = Some u \<and> Token u = t \<and> \<not> fst (timerStop (NackTimer u)) \<longrightarrow>
          Ack c i t = Return (Some ErrAckAfterNack, c\<lparr>requeue := (requeue c)(t := None)\<rparr>)"
    by (simp add: Ack_def deleteRequeue_def)
  show ?thesis
    by (rule conjI [OF rec conjI [OF ack conjI [OF ackr conjI [OF nack conjI [OF p4
          conjI [OF p5 conjI [OF p6 conjI [OF p7 p8]]]]]]]])
qed

theorem requeue_lifecycle_witness:
  "reachable anyEval (delivered 3)
   \<and> unack (delivered 3) ''e1''
      = Some \<lparr>Eval = exampleEval ''e1'' ''j1'' ''service'' 50 1, Token = ''t1'', NackTimer = Running\<rparr>
   \<and> requeue (EnqueueAll (delivered 3) [(exampleEval ''e1'' ''j1'' ''service'' 70 2, ''t1'')]) ''t1''
      = Some (exampleEval ''e1'' ''j1'' ''service'' 70 2)
   \<and> succeeded (Ack (EnqueueAll (delivered 3) [(exampleEval ''e1'' ''j1'' ''service'' 70 2, ''t1'')])
           ''e1'' ''t1'')
   \<and> evals (afterCall (delivered 3)
        (Ack (EnqueueAll (delivered 3) [(exampleEval ''e1'' ''j1'' ''service'' 70 2, ''t1'')])
           ''e1'' ''t1'')) ''e1'' = Some 0
   \<and> placed (afterCall (delivered 3)
        (Ack (EnqueueAll (delivered 3) [(exampleEval ''e1'' ''j1'' ''service'' 70 2, ''t1'')])
           ''e1'' ''t1'')) (exampleEval ''e1'' ''j1'' ''service'' 70 2)
   \<and> succeeded (Nack (EnqueueAll (delivered 3) [(exampleEval ''e1'' ''j1'' ''service'' 70 2, ''t1'')])
           ''e1'' ''t1'')
   \<and> requeue (afterCall (delivered 3)
        (Nack (EnqueueAll (delivered 3) [(exampleEval ''e1'' ''j1'' ''service'' 70 2, ''t1'')])
           ''e1'' ''t1'')) ''t1'' = None
   \<and> evals (afterCall (delivered 3)
        (Nack (EnqueueAll (delivered 3) [(exampleEval ''e1'' ''j1'' ''service'' 70 2, ''t1'')])
           ''e1'' ''t1'')) ''e1'' = Some 1
   \<and> afterCall (delivered 3)
        (Nack (EnqueueAll (delivered 3) [(exampleEval ''e1'' ''j1'' ''service'' 70 2, ''t1'')])
           ''e1'' ''t1'')
      = afterCall (delivered 3) (Nack (delivered 3) ''e1'' ''t1'')"
proof -
  let ?E = "exampleEval ''e1'' ''j1'' ''service'' 50 1"
  let ?E2 = "exampleEval ''e1'' ''j1'' ''service'' 70 2"
  let ?un = "\<lparr>Eval = ?E, Token = ''t1'', NackTimer = Running\<rparr>"
  let ?c = "EnqueueAll (delivered 3) [(?E2, ''t1'')]"
  let ?r = "Ack ?c ''e1'' ''t1''"
  let ?n = "Nack ?c ''e1'' ''t1''"
  have re: "reachable anyEval (delivered 3)"
    unfolding delivered_def Let_def
    by (intro reachable_afterScan reachable_Enqueue reachable_startedBroker)
       (simp_all add: Enqueue_def anyEval_def)
  have u: "unack (delivered 3) (ID ?E) = Some ?un" by code_simp
  have u2: "unack (delivered 3) (ID ?E2) = Some ?un" by code_simp
  have t: "Token ?un = ''t1''" by simp
  have i: "ID ?E = ''e1''" "ID ?E2 = ''e1''" by (simp_all add: exampleEval_def)
  have tm: "fst (timerStop (NackTimer ?un))" by (simp add: timerStop_def)
  have c: "lookupInt (evals (delivered 3)) (ID ?E) \<le> deliveryLimit (delivered 3)" by code_simp
  have e1: "evals (delivered 3) ''e1'' = Some 1" by code_simp
  note th = requeue_lifecycle [OF re u t u2 t]
  note ackr = th [THEN conjunct2, THEN conjunct2, THEN conjunct1, rule_format, OF conjI [OF tm c]]
  note nackr = th [THEN conjunct2, THEN conjunct2, THEN conjunct2, THEN conjunct1]
  from ackr obtain b' where a: "Ack ?c (ID ?E) ''t1'' = Return (None, b')" by blast
  have a': "?r = Return (None, b')" using a unfolding i .
  have ac: "afterCall (delivered 3) ?r = b'" unfolding a' by (simp add: afterCall_def)
  have s: "succeeded ?r" unfolding a' by (simp add: succeeded_def)
  have k: "evals b' (ID ?E2) = Some 0 \<and> placed b' ?E2 \<and> requeue b' ''t1'' = None"
    by (rule th [THEN conjunct2, THEN conjunct1, rule_format, OF a])
  from nackr obtain n' where n: "Nack ?c (ID ?E) ''t1'' = Return (None, n')"
    "Nack (delivered 3) (ID ?E) ''t1'' = Return (None, n')"
    "requeue n' ''t1'' = None" "evals n' (ID ?E2) = evals (delivered 3) (ID ?E2)" by blast
  note n' = n [unfolded i]
  have nc: "afterCall (delivered 3) ?n = n'" unfolding n'(1) by (simp add: afterCall_def)
  have nc0: "afterCall (delivered 3) (Nack (delivered 3) ''e1'' ''t1'') = n'"
    unfolding n'(2) by (simp add: afterCall_def)
  have sn: "succeeded ?n" unfolding n'(1) by (simp add: succeeded_def)
  have rq: "requeue ?c ''t1'' = Some ?E2" using th [THEN conjunct1] by simp
  show ?thesis
    unfolding ac nc nc0
    using re u [unfolded i] rq s k [unfolded i] sn n'(3,4) e1 by simp
qed

subsection \<open>One evaluation in flight per job\<close>

lemma reachable_threeOfOneJob: "reachable namedEval threeOfOneJob"
  unfolding threeOfOneJob_def
  by (intro reachable_Enqueue reachable_twoOfOneJob) (simp add: namedEval_def exampleEval_def)

lemma reachable_unnamedAndNamed: "reachable anyEval (unnamedAndNamed limit)"
  unfolding unnamedAndNamed_def
  by (intro reachable_Enqueue reachable_startedBroker) (simp_all add: anyEval_def)

text \<open>
  An evaluation with the empty id does not stand for its job: \<open>enqueueLocked\<close>
  reads the empty string in \<open>jobEvals\<close> as no representative. After an evaluation
  with the empty id, a second evaluation of the same job is put on the ready queue
  too, and the job has two ready evaluations.
\<close>

theorem unnamed_evaluation_two_ready:
  "reachable anyEval (unnamedAndNamed 3)
   \<and> lookupList (ready (unnamedAndNamed 3)) ''service''
       = [exampleEval [] ''j1'' ''service'' 50 1, exampleEval ''e2'' ''j1'' ''service'' 50 2]
   \<and> namespacedID (exampleEval [] ''j1'' ''service'' 50 1)
       = namespacedID (exampleEval ''e2'' ''j1'' ''service'' 50 2)
   \<and> (''service'', 0) \<in> readyOcc (unnamedAndNamed 3) (namespacedID (exampleEval ''e2'' ''j1'' ''service'' 50 2))
   \<and> (''service'', 1) \<in> readyOcc (unnamedAndNamed 3) (namespacedID (exampleEval ''e2'' ''j1'' ''service'' 50 2))"
proof -
  have l: "lookupList (ready (unnamedAndNamed 3)) ''service''
       = [exampleEval [] ''j1'' ''service'' 50 1, exampleEval ''e2'' ''j1'' ''service'' 50 2]"
    by code_simp
  have k: "namespacedID (exampleEval [] ''j1'' ''service'' 50 1)
       = namespacedID (exampleEval ''e2'' ''j1'' ''service'' 50 2)"
    by (simp add: namespacedID_def exampleEval_def)
  have o0: "(''service'', 0) \<in> readyOcc (unnamedAndNamed 3) (namespacedID (exampleEval ''e2'' ''j1'' ''service'' 50 2))"
    by (simp add: readyOcc_def l namespacedID_def exampleEval_def)
  have o1: "(''service'', 1) \<in> readyOcc (unnamedAndNamed 3) (namespacedID (exampleEval ''e2'' ''j1'' ''service'' 50 2))"
    by (simp add: readyOcc_def l namespacedID_def exampleEval_def)
  show ?thesis
    by (rule conjI [OF reachable_unnamedAndNamed conjI [OF l conjI [OF k conjI [OF o0 o1]]]])
qed

text \<open>
  C2. Let the producers submit evaluations with non-empty ids. In every reachable state
  a job has at most one occurrence in the ready queues and the unack table together. A
  blocked queue holds evaluations of its own job only, and an evaluation admitted while
  another evaluation of its job is ready or outstanding goes to the blocked queue of
  that job. Whatever happens next, an evaluation in a blocked queue stays in that
  queue, with one exception: the Ack of the outstanding delivery of its job takes the
  head of the queue and puts it on the ready queue of its class. A successful Ack
  admits the head of the blocked queue of the job to the ready queue of its class.
\<close>

theorem per_job_serialization:
  assumes "reachable namedEval b"
  shows "(\<forall>x \<in> readyOcc b K <+> unackOcc b K. \<forall>y \<in> readyOcc b K <+> unackOcc b K. x = y)
    \<and> (\<forall>k e. e \<in> set (lookupList (blocked b) k) \<longrightarrow> namespacedID e = k)
    \<and> (\<forall>e e0 l q. held b e0 l \<and> inFlight l \<and> namespacedID e0 = namespacedID e \<and> ID e0 \<noteq> ID e
          \<longrightarrow> enqueueLocked b e q = pushBlocked b e
              \<and> e \<in> set (lookupList (blocked (enqueueLocked b e q)) (namespacedID e)))
    \<and> (\<forall>ev b' k x. step namedEval b ev b' \<and> x \<in> set (lookupList (blocked b) k)
          \<longrightarrow> x \<in> set (lookupList (blocked b') k)
              \<or> (\<exists>i t un. ev = Acked i t \<and> unack b i = Some un \<and> namespacedID (Eval un) = k
                    \<and> x = hd (lookupList (blocked b) k)
                    \<and> x \<in> set (lookupList (ready b') (Type x))))
    \<and> (\<forall>i t b' un x rest. Ack b i t = Return (None, b') \<and> unack b i = Some un
            \<and> heapPop (lookupList (blocked b) (namespacedID (Eval un))) = Some (x, rest)
          \<longrightarrow> x = hd (lookupList (blocked b) (namespacedID (Eval un)))
              \<and> x \<in> set (lookupList (ready b') (Type x)))"
proof -
  have inv: "brokerInv b" using assms by (rule reachable_inv)
  have p1: "\<forall>x \<in> readyOcc b K <+> unackOcc b K. \<forall>y \<in> readyOcc b K <+> unackOcc b K. x = y"
    by (rule at_most_one_in_flight [OF inv])
  have p2: "\<forall>k e. e \<in> set (lookupList (blocked b) k) \<longrightarrow> namespacedID e = k"
    using inv unfolding brokerInv_def blockedByJob_def by (metis held.simps(2))
  have p3: "\<forall>e e0 l q. held b e0 l \<and> inFlight l \<and> namespacedID e0 = namespacedID e \<and> ID e0 \<noteq> ID e
          \<longrightarrow> enqueueLocked b e q = pushBlocked b e
              \<and> e \<in> set (lookupList (blocked (enqueueLocked b e q)) (namespacedID e))"
  proof (intro allI impI, elim conjE)
    fix e e0 l q
    assume "held b e0 l" "inFlight l" "namespacedID e0 = namespacedID e" "ID e0 \<noteq> ID e"
    then show "enqueueLocked b e q = pushBlocked b e
              \<and> e \<in> set (lookupList (blocked (enqueueLocked b e q)) (namespacedID e))"
      using blocked_when_job_in_flight [OF inv, of e0 l e q] by simp
  qed
  have p4: "\<forall>ev b' k x. step namedEval b ev b' \<and> x \<in> set (lookupList (blocked b) k)
          \<longrightarrow> x \<in> set (lookupList (blocked b') k)
              \<or> (\<exists>i t un. ev = Acked i t \<and> unack b i = Some un \<and> namespacedID (Eval un) = k
                    \<and> x = hd (lookupList (blocked b) k)
                    \<and> x \<in> set (lookupList (ready b') (Type x)))"
  proof (intro allI impI, elim conjE)
    fix ev b' k x
    assume "step namedEval b ev b'" "x \<in> set (lookupList (blocked b) k)"
    then show "x \<in> set (lookupList (blocked b') k)
              \<or> (\<exists>i t un. ev = Acked i t \<and> unack b i = Some un \<and> namespacedID (Eval un) = k
                    \<and> x = hd (lookupList (blocked b) k)
                    \<and> x \<in> set (lookupList (ready b') (Type x)))"
      by (rule blocked_conserved [OF inv])
  qed
  have p5: "\<forall>i t b' un x rest. Ack b i t = Return (None, b') \<and> unack b i = Some un
            \<and> heapPop (lookupList (blocked b) (namespacedID (Eval un))) = Some (x, rest)
          \<longrightarrow> x = hd (lookupList (blocked b) (namespacedID (Eval un)))
              \<and> x \<in> set (lookupList (ready b') (Type x))"
  proof (intro allI impI, elim conjE)
    fix i t b' x rest and un :: unackEval
    assume a: "Ack b i t = Return (None, b')" "unack b i = Some un"
      "heapPop (lookupList (blocked b) (namespacedID (Eval un))) = Some (x, rest)"
    show "x = hd (lookupList (blocked b) (namespacedID (Eval un)))
              \<and> x \<in> set (lookupList (ready b') (Type x))"
      using Ack_promotes [OF inv a] heapPop_hd [OF a(3)] by simp
  qed
  show ?thesis
    by (rule conjI [OF p1 conjI [OF p2 conjI [OF p3 conjI [OF p4 p5]]]])
qed

theorem per_job_serialization_witness:
  "reachable namedEval twoOfOneJob
   \<and> ''e1'' \<in> unackOcc twoOfOneJob (namespacedID (exampleEval ''e1'' ''j1'' ''service'' 50 1))
   \<and> readyOcc twoOfOneJob (namespacedID (exampleEval ''e1'' ''j1'' ''service'' 50 1)) = {}
   \<and> exampleEval ''e2'' ''j1'' ''service'' 50 2
        \<in> set (lookupList (blocked twoOfOneJob)
                  (namespacedID (exampleEval ''e1'' ''j1'' ''service'' 50 1)))
   \<and> exampleEval ''e2'' ''j1'' ''service'' 50 2
        \<in> set (lookupList (ready (afterCall twoOfOneJob (Ack twoOfOneJob ''e1'' ''t1'')))
                  ''service'')
   \<and> reachable namedEval threeOfOneJob
   \<and> exampleEval ''e3'' ''j1'' ''service'' 50 3
        \<in> set (lookupList (blocked threeOfOneJob)
                  (namespacedID (exampleEval ''e1'' ''j1'' ''service'' 50 1)))
   \<and> exampleEval ''e3'' ''j1'' ''service'' 50 3
        \<in> set (lookupList (blocked (afterCall threeOfOneJob (Ack threeOfOneJob ''e1'' ''t1'')))
                  (namespacedID (exampleEval ''e1'' ''j1'' ''service'' 50 1)))"
proof -
  let ?E = "exampleEval ''e1'' ''j1'' ''service'' 50 1"
  let ?Y = "exampleEval ''e2'' ''j1'' ''service'' 50 2"
  let ?Z = "exampleEval ''e3'' ''j1'' ''service'' 50 3"
  let ?K = "namespacedID ?E"
  let ?un = "\<lparr>Eval = ?E, Token = ''t1'', NackTimer = Running\<rparr>"
  let ?r = "Ack twoOfOneJob ''e1'' ''t1''"
  let ?r3 = "Ack threeOfOneJob ''e1'' ''t1''"
  note th = per_job_serialization [OF reachable_twoOfOneJob, of ?K]
  note th3 = per_job_serialization [OF reachable_threeOfOneJob, of ?K]
  have u: "unack twoOfOneJob ''e1'' = Some ?un" by code_simp
  then have mem: "''e1'' \<in> unackOcc twoOfOneJob ?K" by (simp add: unackOcc_def)
  have none: "readyOcc twoOfOneJob ?K = {}"
  proof (rule ccontr)
    assume "readyOcc twoOfOneJob ?K \<noteq> {}"
    then obtain p where "p \<in> readyOcc twoOfOneJob ?K" by blast
    then have "Inl p \<in> readyOcc twoOfOneJob ?K <+> unackOcc twoOfOneJob ?K"
      and "Inr ''e1'' \<in> readyOcc twoOfOneJob ?K <+> unackOcc twoOfOneJob ?K"
      using mem by blast+
    then have "Inl p = (Inr ''e1'' :: (string \<times> nat) + string)"
      using th [THEN conjunct1] by blast
    then show False by simp
  qed
  have pop: "heapPop (lookupList (blocked twoOfOneJob) (namespacedID (Eval ?un))) = Some (?Y, [])"
    by code_simp
  have bl: "?Y \<in> set (lookupList (blocked twoOfOneJob) ?K)" by code_simp
  have "succeeded ?r" by code_simp
  then have eqr: "?r = Return (None, afterCall twoOfOneJob ?r)" by (rule succeeded_afterCall)
  have "?Y = hd (lookupList (blocked twoOfOneJob) (namespacedID (Eval ?un)))
      \<and> ?Y \<in> set (lookupList (ready (afterCall twoOfOneJob ?r)) (Type ?Y))"
    by (rule th [THEN conjunct2, THEN conjunct2, THEN conjunct2, THEN conjunct2, rule_format,
                 OF conjI [OF eqr conjI [OF u pop]]])
  then have rdy: "?Y \<in> set (lookupList (ready (afterCall twoOfOneJob ?r)) (Type ?Y))"
    by (rule conjunct2)
  have bl3: "?Z \<in> set (lookupList (blocked threeOfOneJob) ?K)" by code_simp
  have hd3: "hd (lookupList (blocked threeOfOneJob) ?K) = ?Y" by code_simp
  have "succeeded ?r3" by code_simp
  then have eq3: "?r3 = Return (None, afterCall threeOfOneJob ?r3)" by (rule succeeded_afterCall)
  then have st: "step namedEval threeOfOneJob (Acked ''e1'' ''t1'') (afterCall threeOfOneJob ?r3)"
    by (rule step.ack)
  have "?Z \<in> set (lookupList (blocked (afterCall threeOfOneJob ?r3)) ?K)
      \<or> (\<exists>i t un. Acked ''e1'' ''t1'' = Acked i t \<and> unack threeOfOneJob i = Some un
            \<and> namespacedID (Eval un) = ?K
            \<and> ?Z = hd (lookupList (blocked threeOfOneJob) ?K)
            \<and> ?Z \<in> set (lookupList (ready (afterCall threeOfOneJob ?r3)) (Type ?Z)))"
    by (rule th3 [THEN conjunct2, THEN conjunct2, THEN conjunct2, THEN conjunct1, rule_format,
                  OF conjI [OF st bl3]])
  moreover have "?Z \<noteq> ?Y" by (simp add: exampleEval_def)
  ultimately have keep: "?Z \<in> set (lookupList (blocked (afterCall threeOfOneJob ?r3)) ?K)"
    unfolding hd3 by blast
  show ?thesis
    using reachable_twoOfOneJob mem none bl rdy reachable_threeOfOneJob bl3 keep
    by (simp add: exampleEval_def)
qed

subsection \<open>Nack and the delivery limit\<close>

lemma counting_startedBroker: "counting (startedBroker limit) noDequeues noneRouted"
  unfolding startedBroker_def
  by (rule counting.start [of 5 0 0 limit]) (simp add: NewEvalBroker_def)

lemma counting_Enqueue:
  assumes "counting b dq rt" "namedEval e"
  shows "counting (Enqueue b e) dq rt"
proof -
  have "step namedEval b (Enqueued e []) (processEnqueue b e [])"
    using assms(2) by (rule step.enqueue)
  from counting.after [OF assms(1) this] show ?thesis by (simp add: Enqueue_def)
qed

lemma counting_afterScan:
  assumes "counting b dq rt" "token \<noteq> []" "\<forall>i u. unack b i = Some u \<longrightarrow> Token u \<noteq> token"
  shows "counting (afterScan b (scanForSchedulers b schedulers token rnd))
           (dequeuesAfter b (Scanned schedulers token rnd) dq) rt"
proof (cases "scanForSchedulers b schedulers token rnd")
  case Panic
  then show ?thesis using assms(1) by (simp add: afterScan_def scanned_def)
next
  case (Return x)
  show ?thesis
  proof (cases x)
    case (Inl a)
    then show ?thesis using Return assms(1) by (simp add: afterScan_def scanned_def)
  next
    case (Inr p)
    obtain r b' where p: "p = (r, b')" by (cases p)
    have "step namedEval b (Scanned schedulers token rnd) b'"
      using step.dequeue [OF assms(2,3)] Return Inr p by simp
    from counting.after [OF assms(1) this] show ?thesis
      using Return Inr p by (simp add: afterScan_def)
  qed
qed

lemma counting_afterCall_Nack:
  assumes "counting b dq rt"
  shows "counting (afterCall b (Nack b i t)) dq (routedAfter b (Nacked i t) rt)"
proof (cases "Nack b i t")
  case Panic
  then show ?thesis using assms by (simp add: afterCall_def succeeded_def)
next
  case (Return x)
  obtain r b' where x: "x = (r, b')" by (cases x)
  have "step namedEval b (Nacked i t) b'" using Return x by (intro step.nack) simp
  from counting.after [OF assms this] show ?thesis
    using Return x by (simp add: afterCall_def)
qed

lemma counting_delivered_1:
  "counting (delivered 1) (noDequeues(''e1'' := 1)) noneRouted"
proof -
  let ?E = "exampleEval ''e1'' ''j1'' ''service'' 50 1"
  let ?b = "Enqueue (startedBroker 1) ?E"
  have c: "counting ?b noDequeues noneRouted"
    by (intro counting_Enqueue counting_startedBroker) (simp add: namedEval_def exampleEval_def)
  have s: "scanned (scanForSchedulers ?b [''service''] ''t1'' 0) = Some ?E" by code_simp
  have d: "dequeuesAfter ?b (Scanned [''service''] ''t1'' 0) noDequeues = noDequeues(''e1'' := 1)"
    unfolding dequeuesAfter.simps s by (simp add: noDequeues_def exampleEval_def)
  have "counting (afterScan ?b (scanForSchedulers ?b [''service''] ''t1'' 0))
           (dequeuesAfter ?b (Scanned [''service''] ''t1'' 0) noDequeues) noneRouted"
    by (rule counting_afterScan [OF c]) (simp_all add: Enqueue_def)
  then show ?thesis unfolding d delivered_def Let_def .
qed

lemma counting_delivered_negative:
  "counting (delivered (- 1)) (noDequeues(''e1'' := 1)) noneRouted"
proof -
  let ?E = "exampleEval ''e1'' ''j1'' ''service'' 50 1"
  let ?b = "Enqueue (startedBroker (- 1)) ?E"
  have c: "counting ?b noDequeues noneRouted"
    by (intro counting_Enqueue counting_startedBroker) (simp add: namedEval_def exampleEval_def)
  have s: "scanned (scanForSchedulers ?b [''service''] ''t1'' 0) = Some ?E" by code_simp
  have d: "dequeuesAfter ?b (Scanned [''service''] ''t1'' 0) noDequeues = noDequeues(''e1'' := 1)"
    unfolding dequeuesAfter.simps s by (simp add: noDequeues_def exampleEval_def)
  have "counting (afterScan ?b (scanForSchedulers ?b [''service''] ''t1'' 0))
           (dequeuesAfter ?b (Scanned [''service''] ''t1'' 0) noDequeues) noneRouted"
    by (rule counting_afterScan [OF c]) (simp_all add: Enqueue_def)
  then show ?thesis unfolding d delivered_def Let_def .
qed

lemma counting_parkedAfterNack:
  "counting parkedAfterNack (noDequeues(''e1'' := 1)) noneRouted"
proof -
  let ?E = "exampleEval ''e1'' ''j1'' ''service'' 50 1"
  let ?s = "SetEnabled (newBroker 5 10 20 3) True"
  let ?b = "Enqueue ?s ?E"
  let ?b2 = "afterScan ?b (scanForSchedulers ?b [''service''] ''t1'' 0)"
  have "counting ?s noDequeues noneRouted"
    by (rule counting.start [of 5 10 20 3]) (simp add: NewEvalBroker_def)
  then have c: "counting ?b noDequeues noneRouted"
    by (rule counting_Enqueue) (simp add: namedEval_def exampleEval_def)
  have s: "scanned (scanForSchedulers ?b [''service''] ''t1'' 0) = Some ?E" by code_simp
  have d: "dequeuesAfter ?b (Scanned [''service''] ''t1'' 0) noDequeues = noDequeues(''e1'' := 1)"
    unfolding dequeuesAfter.simps s by (simp add: noDequeues_def exampleEval_def)
  have "counting ?b2 (dequeuesAfter ?b (Scanned [''service''] ''t1'' 0) noDequeues) noneRouted"
    by (rule counting_afterScan [OF c])
       (simp_all add: Enqueue_def SetEnabled_def newBroker_def)
  then have c2: "counting ?b2 (noDequeues(''e1'' := 1)) noneRouted" unfolding d .
  have n: "\<not> (\<exists>e \<in> set (lookupList (ready (afterCall ?b2 (Nack ?b2 ''e1'' ''t1''))) failedQueue).
              ID e = ''e1'')"
    by code_simp
  have r: "routedAfter ?b2 (Nacked ''e1'' ''t1'') noneRouted = noneRouted"
    unfolding routedAfter.simps using n by simp
  show ?thesis
    using counting_afterCall_Nack [OF c2, of "''e1''" "''t1''"]
    unfolding r parkedAfterNack_def Let_def .
qed

lemma counting_deliveredBackoff:
  "counting deliveredBackoff (noDequeues(''e1'' := 1)) noneRouted"
proof -
  let ?E = "exampleEval ''e1'' ''j1'' ''service'' 50 1"
  let ?s = "SetEnabled (newBroker 5 10 20 3) True"
  let ?b = "Enqueue ?s ?E"
  have "counting ?s noDequeues noneRouted"
    by (rule counting.start [of 5 10 20 3]) (simp add: NewEvalBroker_def)
  then have c: "counting ?b noDequeues noneRouted"
    by (rule counting_Enqueue) (simp add: namedEval_def exampleEval_def)
  have s: "scanned (scanForSchedulers ?b [''service''] ''t1'' 0) = Some ?E" by code_simp
  have d: "dequeuesAfter ?b (Scanned [''service''] ''t1'' 0) noDequeues = noDequeues(''e1'' := 1)"
    unfolding dequeuesAfter.simps s by (simp add: noDequeues_def exampleEval_def)
  have "counting (afterScan ?b (scanForSchedulers ?b [''service''] ''t1'' 0))
          (dequeuesAfter ?b (Scanned [''service''] ''t1'' 0) noDequeues) noneRouted"
    by (rule counting_afterScan [OF c])
       (simp_all add: Enqueue_def SetEnabled_def newBroker_def)
  then show ?thesis unfolding d deliveredBackoff_def Let_def .
qed

lemma Nack_parked_returns:
  assumes inv: "brokerInv b" and a: "Nack b i t = Return (None, b')"
    and u: "unack b i = Some un"
    and c: "lookupInt (evals b) i < deliveryLimit b"
    and d: "0 < nackReenqueueDelay b (Eval un) (lookupInt (evals b) i)"
  shows "(Eval un)\<lparr>Wait := nackReenqueueDelay b (Eval un) (lookupInt (evals b) i)\<rparr>
     \<in> set (lookupList
          (ready (enqueueWaiting b'
             ((Eval un)\<lparr>Wait := nackReenqueueDelay b (Eval un) (lookupInt (evals b) i)\<rparr>)))
          (Type (Eval un)))"
proof -
  define e where "e = (Eval un)\<lparr>Wait := nackReenqueueDelay b (Eval un) (lookupInt (evals b) i)\<rparr>"
  from a u have t: "Token un = t"
    by (auto simp: Nack_def Let_def deleteRequeue_def split: option.splits if_splits)
  from a u t obtain bySched :: SchedulerStats
    where bs: "ByScheduler (stats b) (Type (Eval un)) = Some bySched"
    by (auto simp: Nack_def Let_def deleteRequeue_def split: option.splits)
  have b': "b' = processWaitingEnqueue
      (b\<lparr>requeue := (requeue b)(t := None), unack := (unack b)(i := None),
          stats := (stats b)\<lparr>TotalUnacked := TotalUnacked (stats b) - 1,
             ByScheduler := (ByScheduler (stats b))(Type (Eval un) \<mapsto>
                bySched\<lparr>Unacked := Unacked bySched - 1\<rparr>)\<rparr>\<rparr>) e"
    using a c d unfolding Nack_result [OF u t bs] by (auto simp: Let_def e_def)
  have i: "ID (Eval un) = i" using inv u by (auto simp: brokerInv_def keyedByID_def)
  then have h: "held b (Eval un) InUnack" using u by simp
  have rep: "jobEvals b (namespacedID (Eval un)) = Some (ID (Eval un))"
    using inv h unfolding brokerInv_def represented_def by (metis inFlight.simps(2))
  have ne: "ID (Eval un) \<noteq> []" using inv h unfolding brokerInv_def counted_def by blast
  have en: "enabled b" using inv by (simp add: brokerInv_def)
  have ee: "ID e = ID (Eval un)" "namespacedID e = namespacedID (Eval un)" "Type e = Type (Eval un)"
    by (simp_all add: e_def namespacedID_def)
  have "e \<in> set (lookupList (ready (enqueueWaiting b' e)) (Type e))"
    unfolding enqueueWaiting_def
    using en ne rep ee by (intro enqueueLocked_own) (simp_all add: b' processWaitingEnqueue_def)
  then show ?thesis unfolding e_def [symmetric] ee .
qed

lemma reachable_unnamedDelivered: "reachable anyEval unnamedDelivered"
  unfolding unnamedDelivered_def Let_def
  by (intro reachable_afterScan reachable_unnamedAndNamed)
     (simp_all add: unnamedAndNamed_def Enqueue_def)

text \<open>
  \<open>NewEvalBroker\<close> accepts a negative delivery limit. Under a limit of -1 an
  evaluation that was delivered once and not routed to the failed class has been
  delivered more often than the limit plus 1, which is 0. And an evaluation with the
  empty id that is nacked at the delivery limit while a second evaluation of its job
  is ready is put on the blocked queue of the job, not on the ready queue of the
  failed class.
\<close>

theorem negative_limit_and_unnamed_nack:
  "counting (delivered (- 1)) (noDequeues(''e1'' := 1)) noneRouted
   \<and> \<not> noneRouted ''e1''
   \<and> deliveryLimit (delivered (- 1)) + 1 < int ((noDequeues(''e1'' := 1)) ''e1'')
   \<and> reachable anyEval unnamedDelivered
   \<and> succeeded (Nack unnamedDelivered [] ''t1'')
   \<and> deliveryLimit unnamedDelivered \<le> lookupInt (evals unnamedDelivered) []
   \<and> lookupList (ready (afterCall unnamedDelivered (Nack unnamedDelivered [] ''t1''))) failedQueue = []
   \<and> exampleEval [] ''j1'' ''service'' 50 1
        \<in> set (lookupList (blocked (afterCall unnamedDelivered (Nack unnamedDelivered [] ''t1'')))
                  (namespacedID (exampleEval [] ''j1'' ''service'' 50 1)))"
proof -
  have a: "\<not> noneRouted ''e1''" by (simp add: noneRouted_def)
  have l: "deliveryLimit (delivered (- 1)) = - 1" by code_simp
  have b: "deliveryLimit (delivered (- 1)) + 1 < int ((noDequeues(''e1'' := 1)) ''e1'')"
    unfolding l by simp
  have c: "succeeded (Nack unnamedDelivered [] ''t1'')" by code_simp
  have d: "deliveryLimit unnamedDelivered \<le> lookupInt (evals unnamedDelivered) []" by code_simp
  have e: "lookupList (ready (afterCall unnamedDelivered (Nack unnamedDelivered [] ''t1''))) failedQueue = []"
    by code_simp
  have f: "exampleEval [] ''j1'' ''service'' 50 1
        \<in> set (lookupList (blocked (afterCall unnamedDelivered (Nack unnamedDelivered [] ''t1'')))
                  (namespacedID (exampleEval [] ''j1'' ''service'' 50 1)))"
    by code_simp
  show ?thesis
    by (rule conjI [OF counting_delivered_negative conjI [OF a conjI [OF b
          conjI [OF reachable_unnamedDelivered conjI [OF c conjI [OF d conjI [OF e f]]]]]]])
qed

text \<open>
  C3. Let the producers submit evaluations with non-empty ids. In every reachable state
  the Nack of an outstanding delivery with its token returns without an error. A
  successful Nack finds the delivery, and with an attempt counter at or above the
  delivery limit the evaluation is put on the ready queue of the failed class; below
  the limit it is parked in the time-wait set when the back-off delay is positive and
  put on the ready queue of its own class otherwise. The parked evaluation goes to the
  ready queue of its own class when its timer runs out next, and so does, in any state,
  a parked evaluation that was delivered before.
  The attempt counter of an id is the number of its deliveries since the id was last
  acked. An id that no Nack has routed to the failed class has been delivered at most
  as often as the larger of 1 and the delivery limit, hence at most the limit plus 1
  times when the limit is not negative.
\<close>

theorem Nack_routing_and_delivery_limit:
  assumes "counting b dq rt"
  shows "(\<forall>i un. unack b i = Some un \<longrightarrow> (\<exists>b'. Nack b i (Token un) = Return (None, b')))
    \<and> (\<forall>i t b'. Nack b i t = Return (None, b') \<longrightarrow>
       (\<exists>un. unack b i = Some un \<and> Token un = t
         \<and> (lookupInt (evals b) i \<ge> deliveryLimit b
              \<longrightarrow> Eval un \<in> set (lookupList (ready b') failedQueue))
         \<and> (lookupInt (evals b) i < deliveryLimit b \<longrightarrow>
              (0 < nackReenqueueDelay b (Eval un) (lookupInt (evals b) i)
                 \<longrightarrow> timeWait b' i
                       = Some ((Eval un)\<lparr>Wait := nackReenqueueDelay b (Eval un) (lookupInt (evals b) i)\<rparr>))
              \<and> (nackReenqueueDelay b (Eval un) (lookupInt (evals b) i) \<le> 0
                 \<longrightarrow> (Eval un)\<lparr>Wait := nackReenqueueDelay b (Eval un) (lookupInt (evals b) i)\<rparr>
                       \<in> set (lookupList (ready b') (Type (Eval un)))))))
    \<and> (\<forall>i t b' un. Nack b i t = Return (None, b') \<and> unack b i = Some un
            \<and> lookupInt (evals b) i < deliveryLimit b
            \<and> 0 < nackReenqueueDelay b (Eval un) (lookupInt (evals b) i)
          \<longrightarrow> (Eval un)\<lparr>Wait := nackReenqueueDelay b (Eval un) (lookupInt (evals b) i)\<rparr>
                \<in> set (lookupList
                     (ready (enqueueWaiting b'
                        ((Eval un)\<lparr>Wait := nackReenqueueDelay b (Eval un) (lookupInt (evals b) i)\<rparr>)))
                     (Type (Eval un))))
    \<and> (\<forall>e. timeWait b (ID e) = Some e \<and> 0 < lookupInt (evals b) (ID e)
          \<longrightarrow> e \<in> set (lookupList (ready (enqueueWaiting b e)) (Type e)))
    \<and> (\<forall>i. int (dq i) = lookupInt (evals b) i)
    \<and> (\<forall>i. \<not> rt i \<longrightarrow> int (dq i) \<le> max 1 (deliveryLimit b))
    \<and> (0 \<le> deliveryLimit b \<longrightarrow> (\<forall>i. \<not> rt i \<longrightarrow> int (dq i) \<le> deliveryLimit b + 1))"
proof -
  have re: "reachable namedEval b" using assms by (rule counting_reachable)
  have inv: "brokerInv b" using re by (rule reachable_inv)
  have g: "ghostInv b dq rt" using assms by (rule counting_ghostInv)
  have p0: "\<forall>i un. unack b i = Some un \<longrightarrow> (\<exists>b'. Nack b i (Token un) = Return (None, b'))"
    using Nack_returns [OF re] by blast
  have p1: "\<forall>i t b'. Nack b i t = Return (None, b') \<longrightarrow>
       (\<exists>un. unack b i = Some un \<and> Token un = t
         \<and> (lookupInt (evals b) i \<ge> deliveryLimit b
              \<longrightarrow> Eval un \<in> set (lookupList (ready b') failedQueue))
         \<and> (lookupInt (evals b) i < deliveryLimit b \<longrightarrow>
              (0 < nackReenqueueDelay b (Eval un) (lookupInt (evals b) i)
                 \<longrightarrow> timeWait b' i
                       = Some ((Eval un)\<lparr>Wait := nackReenqueueDelay b (Eval un) (lookupInt (evals b) i)\<rparr>))
              \<and> (nackReenqueueDelay b (Eval un) (lookupInt (evals b) i) \<le> 0
                 \<longrightarrow> (Eval un)\<lparr>Wait := nackReenqueueDelay b (Eval un) (lookupInt (evals b) i)\<rparr>
                       \<in> set (lookupList (ready b') (Type (Eval un))))))"
    by (intro allI impI) (rule Nack_routes [OF inv])
  have p1b: "\<forall>i t b' un. Nack b i t = Return (None, b') \<and> unack b i = Some un
            \<and> lookupInt (evals b) i < deliveryLimit b
            \<and> 0 < nackReenqueueDelay b (Eval un) (lookupInt (evals b) i)
          \<longrightarrow> (Eval un)\<lparr>Wait := nackReenqueueDelay b (Eval un) (lookupInt (evals b) i)\<rparr>
                \<in> set (lookupList
                     (ready (enqueueWaiting b'
                        ((Eval un)\<lparr>Wait := nackReenqueueDelay b (Eval un) (lookupInt (evals b) i)\<rparr>)))
                     (Type (Eval un)))"
  proof (intro allI impI, elim conjE)
    fix i t b' and un :: unackEval
    assume "Nack b i t = Return (None, b')" "unack b i = Some un"
      "lookupInt (evals b) i < deliveryLimit b"
      "0 < nackReenqueueDelay b (Eval un) (lookupInt (evals b) i)"
    then show "(Eval un)\<lparr>Wait := nackReenqueueDelay b (Eval un) (lookupInt (evals b) i)\<rparr>
                \<in> set (lookupList
                     (ready (enqueueWaiting b'
                        ((Eval un)\<lparr>Wait := nackReenqueueDelay b (Eval un) (lookupInt (evals b) i)\<rparr>)))
                     (Type (Eval un)))"
      by (rule Nack_parked_returns [OF inv])
  qed
  have p2: "\<forall>e. timeWait b (ID e) = Some e \<and> 0 < lookupInt (evals b) (ID e)
          \<longrightarrow> e \<in> set (lookupList (ready (enqueueWaiting b e)) (Type e))"
    using parked_returns_to_own_class [OF inv] by simp
  have p3: "\<forall>i. int (dq i) = lookupInt (evals b) i"
    using g unfolding ghostInv_def by blast
  have p4: "\<forall>i. \<not> rt i \<longrightarrow> int (dq i) \<le> max 1 (deliveryLimit b)"
    using g unfolding ghostInv_def by metis
  have p5: "0 \<le> deliveryLimit b \<longrightarrow> (\<forall>i. \<not> rt i \<longrightarrow> int (dq i) \<le> deliveryLimit b + 1)"
  proof (intro impI allI)
    fix i
    assume "0 \<le> deliveryLimit b" "\<not> rt i"
    then show "int (dq i) \<le> deliveryLimit b + 1"
      using p4 [rule_format, of i] by simp
  qed
  show ?thesis
    by (rule conjI [OF p0 conjI [OF p1 conjI [OF p1b conjI [OF p2 conjI [OF p3 conjI [OF p4 p5]]]]]])
qed

theorem Nack_routing_and_delivery_limit_witness:
  "counting (delivered 1) (noDequeues(''e1'' := 1)) noneRouted
   \<and> succeeded (Nack (delivered 1) ''e1'' ''t1'')
   \<and> lookupInt (evals (delivered 1)) ''e1'' = 1 \<and> deliveryLimit (delivered 1) = 1
   \<and> exampleEval ''e1'' ''j1'' ''service'' 50 1
        \<in> set (lookupList (ready (afterCall (delivered 1) (Nack (delivered 1) ''e1'' ''t1'')))
                  failedQueue)
   \<and> counting deliveredBackoff (noDequeues(''e1'' := 1)) noneRouted
   \<and> succeeded (Nack deliveredBackoff ''e1'' ''t1'')
   \<and> timeWait (afterCall deliveredBackoff (Nack deliveredBackoff ''e1'' ''t1'')) ''e1''
        = Some ((exampleEval ''e1'' ''j1'' ''service'' 50 1)\<lparr>Wait := 10\<rparr>)
   \<and> (exampleEval ''e1'' ''j1'' ''service'' 50 1)\<lparr>Wait := 10\<rparr>
        \<in> set (lookupList
             (ready (enqueueWaiting (afterCall deliveredBackoff (Nack deliveredBackoff ''e1'' ''t1''))
                ((exampleEval ''e1'' ''j1'' ''service'' 50 1)\<lparr>Wait := 10\<rparr>))) ''service'')
   \<and> counting parkedAfterNack (noDequeues(''e1'' := 1)) noneRouted
   \<and> timeWait parkedAfterNack ''e1'' = Some ((exampleEval ''e1'' ''j1'' ''service'' 50 1)\<lparr>Wait := 10\<rparr>)
   \<and> (exampleEval ''e1'' ''j1'' ''service'' 50 1)\<lparr>Wait := 10\<rparr>
        \<in> set (lookupList
             (ready (enqueueWaiting parkedAfterNack
                ((exampleEval ''e1'' ''j1'' ''service'' 50 1)\<lparr>Wait := 10\<rparr>))) ''service'')"
proof -
  let ?E = "exampleEval ''e1'' ''j1'' ''service'' 50 1"
  let ?P = "?E\<lparr>Wait := 10\<rparr>"
  let ?un = "\<lparr>Eval = ?E, Token = ''t1'', NackTimer = Running\<rparr>"
  let ?r = "Nack (delivered 1) ''e1'' ''t1''"
  let ?q = "Nack deliveredBackoff ''e1'' ''t1''"
  note th = Nack_routing_and_delivery_limit [OF counting_delivered_1]
  note th2 = Nack_routing_and_delivery_limit [OF counting_parkedAfterNack]
  note th3 = Nack_routing_and_delivery_limit [OF counting_deliveredBackoff]
  have u: "unack (delivered 1) ''e1'' = Some ?un" by code_simp
  have "\<exists>b'. Nack (delivered 1) ''e1'' (Token ?un) = Return (None, b')"
    by (rule th [THEN conjunct1, rule_format, OF u])
  then obtain b' where r: "?r = Return (None, b')" by auto
  have s: "succeeded ?r" unfolding r by (simp add: succeeded_def)
  have ac: "afterCall (delivered 1) ?r = b'" unfolding r by (simp add: afterCall_def)
  have c1: "lookupInt (evals (delivered 1)) ''e1'' = 1"
    using th [THEN conjunct2, THEN conjunct2, THEN conjunct2, THEN conjunct2, THEN conjunct1,
              rule_format, of "''e1''"]
    by simp
  have c2: "deliveryLimit (delivered 1) = 1" by code_simp
  have "\<exists>un. unack (delivered 1) ''e1'' = Some un \<and> Token un = ''t1''
        \<and> (deliveryLimit (delivered 1) \<le> lookupInt (evals (delivered 1)) ''e1''
              \<longrightarrow> Eval un \<in> set (lookupList (ready b') failedQueue))"
    using th [THEN conjunct2, THEN conjunct1, rule_format, OF r] by blast
  then obtain un' :: unackEval where "unack (delivered 1) ''e1'' = Some un'"
    "Eval un' \<in> set (lookupList (ready b') failedQueue)"
    using c1 c2 by auto
  moreover from this u have "un' = ?un" by simp
  ultimately have f: "?E \<in> set (lookupList (ready (afterCall (delivered 1) ?r)) failedQueue)"
    unfolding ac by simp
  have u3: "unack deliveredBackoff ''e1'' = Some ?un" by code_simp
  have "\<exists>b'. Nack deliveredBackoff ''e1'' (Token ?un) = Return (None, b')"
    by (rule th3 [THEN conjunct1, rule_format, OF u3])
  then obtain b3 where q: "?q = Return (None, b3)" by auto
  have s3: "succeeded ?q" unfolding q by (simp add: succeeded_def)
  have ac3: "afterCall deliveredBackoff ?q = b3" unfolding q by (simp add: afterCall_def)
  have k3: "lookupInt (evals deliveredBackoff) ''e1'' < deliveryLimit deliveredBackoff" by code_simp
  have d3: "nackReenqueueDelay deliveredBackoff (Eval ?un) (lookupInt (evals deliveredBackoff) ''e1'') = 10"
    by code_simp
  have d3': "0 < nackReenqueueDelay deliveredBackoff (Eval ?un) (lookupInt (evals deliveredBackoff) ''e1'')"
    unfolding d3 by simp
  have "\<exists>un. unack deliveredBackoff ''e1'' = Some un
        \<and> timeWait b3 ''e1''
            = Some ((Eval un)\<lparr>Wait := nackReenqueueDelay deliveredBackoff (Eval un)
                                     (lookupInt (evals deliveredBackoff) ''e1'')\<rparr>)"
    using th3 [THEN conjunct2, THEN conjunct1, rule_format, OF q] k3 d3' u3 by auto
  then have w3: "timeWait (afterCall deliveredBackoff ?q) ''e1'' = Some ?P"
    unfolding ac3 using u3 d3 by auto
  have "(Eval ?un)\<lparr>Wait := nackReenqueueDelay deliveredBackoff (Eval ?un)
                                     (lookupInt (evals deliveredBackoff) ''e1'')\<rparr>
        \<in> set (lookupList (ready (enqueueWaiting b3
             ((Eval ?un)\<lparr>Wait := nackReenqueueDelay deliveredBackoff (Eval ?un)
                                     (lookupInt (evals deliveredBackoff) ''e1'')\<rparr>)))
             (Type (Eval ?un)))"
    by (rule th3 [THEN conjunct2, THEN conjunct2, THEN conjunct1, rule_format,
                  OF conjI [OF q conjI [OF u3 conjI [OF k3 d3']]]])
  then have r3: "?P \<in> set (lookupList (ready (enqueueWaiting (afterCall deliveredBackoff ?q) ?P))
                           ''service'')"
    unfolding d3 ac3 by (simp add: exampleEval_def)
  have w: "timeWait parkedAfterNack (ID ?P) = Some ?P" by code_simp
  have k: "0 < lookupInt (evals parkedAfterNack) (ID ?P)" by code_simp
  have i: "ID ?P = ''e1''" "Type ?P = ''service''" by (simp_all add: exampleEval_def)
  have "?P \<in> set (lookupList (ready (enqueueWaiting parkedAfterNack ?P)) (Type ?P))"
    using th2 [THEN conjunct2, THEN conjunct2, THEN conjunct2, THEN conjunct1, rule_format, of ?P] w k
    by simp
  then show ?thesis
    using counting_delivered_1 counting_parkedAfterNack counting_deliveredBackoff
      s c1 c2 f s3 w3 r3 w i by simp
qed

end
